theory Spec2Isabelle
  imports Complex_Main
begin

section \<open>Floating-point values\<close>

text \<open>
  A float64 is a finite number, one of two zeros, an infinity or NaN. \<open>Fin a\<close> is the finite
  double of value \<open>a\<close> (\<open>Fin 0\<close> is \<open>+0\<close>) and \<open>NZero\<close> is \<open>-0\<close>. The exact result of an
  operation is rounded to nearest, ties to even (\<open>rnd\<close>): to 53 significant bits, and below
  \<open>2 powr - 1022\<close>, in the subnormal range, to a multiple of \<open>2 powr - 1074\<close>, so that a tiny
  result underflows to a zero, which keeps its sign. A result that rounds to \<open>2 ^ 1024\<close> or
  beyond overflows to an infinity. The special values follow IEEE 754, as Python and NumPy
  do: NaN propagates and compares false with everything, \<open>inf - inf\<close>, \<open>0 * inf\<close>, \<open>0 / 0\<close>
  and \<open>inf / inf\<close> are NaN, a nonzero number divided by a zero is an infinity, and the sign
  of a product or quotient is the product of the signs. An input \<open>Fin a\<close> may hold any real
  \<open>a\<close>, the doubles (\<open>is_double\<close>) among them; every result of an operation is a double.
\<close>

definition rhe :: "real \<Rightarrow> int" where
  \<comment> \<open>the nearest integer, the even one of the two on a tie\<close>
  "rhe y = (let f = \<lfloor>y\<rfloor> in
             if y - of_int f < 1 / 2 then f
             else if 1 / 2 < y - of_int f then f + 1
             else if even f then f else f + 1)"

definition rpos :: "real \<Rightarrow> real" where
  \<comment> \<open>a positive real to the nearest multiple of \<open>2 powr (e - 52)\<close>, where
      \<open>2 powr e \<le> x < 2 powr (e + 1)\<close>, and \<open>e = -1022\<close> for the reals below \<open>2 powr - 1022\<close>
      (the subnormal range, whose results are multiples of \<open>2 powr - 1074\<close>)\<close>
  "rpos x = (let e = max \<lfloor>log 2 x\<rfloor> (- 1022); u = 2 powr (of_int e - 52) in u * of_int (rhe (x / u)))"

definition rnd :: "real \<Rightarrow> real" where
  "rnd x = (if x = 0 then 0 else if 0 < x then rpos x else - rpos (- x))"

datatype fl = Fin real | NZero | PInf | NInf | NaN

definition fl_val :: "fl \<Rightarrow> real" where
  \<comment> \<open>the number a finite value stands for\<close>
  "fl_val v = (case v of Fin a \<Rightarrow> a | _ \<Rightarrow> 0)"

definition fl_neg :: "fl \<Rightarrow> bool" where
  \<comment> \<open>the sign bit\<close>
  "fl_neg v = (case v of Fin a \<Rightarrow> a < 0 | NZero \<Rightarrow> True | NInf \<Rightarrow> True | _ \<Rightarrow> False)"

definition is_fin :: "fl \<Rightarrow> bool" where
  "is_fin v = (case v of Fin a \<Rightarrow> True | NZero \<Rightarrow> True | _ \<Rightarrow> False)"

definition is_inf :: "fl \<Rightarrow> bool" where
  "is_inf v \<longleftrightarrow> v = PInf \<or> v = NInf"

definition fl_zero :: "fl \<Rightarrow> bool" where
  "fl_zero v \<longleftrightarrow> v = Fin 0 \<or> v = NZero"

definition signed_zero :: "bool \<Rightarrow> fl" where
  "signed_zero n = (if n then NZero else Fin 0)"

definition signed_inf :: "bool \<Rightarrow> fl" where
  "signed_inf n = (if n then NInf else PInf)"

definition fl_huge :: real where
  \<comment> \<open>the least power of two beyond the doubles\<close>
  "fl_huge = 2 ^ 1024"

definition round_fl :: "real \<Rightarrow> fl" where
  \<comment> \<open>the double an exact result is delivered as: rounded, an infinity when the rounded
      value is beyond the largest double, a zero of the sign of the exact result when it
      rounds to zero\<close>
  "round_fl x = (let y = rnd x in
       if fl_huge \<le> y then PInf else if y \<le> - fl_huge then NInf
       else if y = 0 then signed_zero (x < 0) else Fin y)"

instantiation fl :: "{zero_neq_one,plus,minus,uminus,times,inverse,ord}"
begin

definition zero_fl :: fl where
  "zero_fl = Fin 0"

definition one_fl :: fl where
  "one_fl = Fin 1"

definition plus_fl :: "fl \<Rightarrow> fl \<Rightarrow> fl" where
  "plus_fl u v =
     (if u = NaN \<or> v = NaN then NaN
      else if is_inf u \<and> is_inf v then (if u = v then u else NaN)
      else if is_inf u then u
      else if is_inf v then v
      else if u = NZero \<and> v = NZero then NZero
      else round_fl (fl_val u + fl_val v))"

definition uminus_fl :: "fl \<Rightarrow> fl" where
  "uminus_fl v =
     (case v of Fin a \<Rightarrow> if a = 0 then NZero else Fin (- a) | NZero \<Rightarrow> Fin 0
      | PInf \<Rightarrow> NInf | NInf \<Rightarrow> PInf | NaN \<Rightarrow> NaN)"

definition minus_fl :: "fl \<Rightarrow> fl \<Rightarrow> fl" where
  "minus_fl u v = u + (- v)"

definition times_fl :: "fl \<Rightarrow> fl \<Rightarrow> fl" where
  "times_fl u v =
     (if u = NaN \<or> v = NaN then NaN
      else if is_inf u \<or> is_inf v then
        (if fl_zero u \<or> fl_zero v then NaN else signed_inf (fl_neg u \<noteq> fl_neg v))
      else if fl_zero u \<or> fl_zero v then signed_zero (fl_neg u \<noteq> fl_neg v)
      else round_fl (fl_val u * fl_val v))"

definition divide_fl :: "fl \<Rightarrow> fl \<Rightarrow> fl" where
  "divide_fl u v =
     (if u = NaN \<or> v = NaN then NaN
      else if is_inf u then (if is_inf v then NaN else signed_inf (fl_neg u \<noteq> fl_neg v))
      else if is_inf v then signed_zero (fl_neg u \<noteq> fl_neg v)
      else if fl_zero v then (if fl_zero u then NaN else signed_inf (fl_neg u \<noteq> fl_neg v))
      else if fl_zero u then signed_zero (fl_neg u \<noteq> fl_neg v)
      else round_fl (fl_val u / fl_val v))"

definition inverse_fl :: "fl \<Rightarrow> fl" where
  "inverse_fl v = divide (Fin 1) v"

definition less_eq_fl :: "fl \<Rightarrow> fl \<Rightarrow> bool" where
  "less_eq_fl u v \<longleftrightarrow> u \<noteq> NaN \<and> v \<noteq> NaN \<and>
     (u = NInf \<or> v = PInf \<or> (is_fin u \<and> is_fin v \<and> fl_val u \<le> fl_val v))"

definition less_fl :: "fl \<Rightarrow> fl \<Rightarrow> bool" where
  "less_fl u v \<longleftrightarrow> u \<noteq> NaN \<and> v \<noteq> NaN \<and>
     ((u = NInf \<and> v \<noteq> NInf) \<or> (v = PInf \<and> u \<noteq> PInf) \<or> (is_fin u \<and> is_fin v \<and> fl_val u < fl_val v))"

instance
  by standard (simp add: zero_fl_def one_fl_def)

end

definition isnan :: "fl \<Rightarrow> bool" where
  "isnan v \<longleftrightarrow> v = NaN"

definition is_double :: "fl \<Rightarrow> bool" where
  \<comment> \<open>the values that are float64 values\<close>
  "is_double v = (case v of Fin a \<Rightarrow> rnd a = a \<and> \<bar>a\<bar> < fl_huge | _ \<Rightarrow> True)"

text \<open>
  \<^verbatim>\<open>np.log\<close> is not correctly rounded on every platform. The logarithm of one float is a
  parameter \<open>lg\<close> of the model, and the theorems ask \<open>np_log_ok\<close> of it: the special values
  of IEEE 754, and on a positive double a finite double within a relative error of
  \<open>2 powr - 50\<close> of the exact logarithm (a few units in the last place), so that the
  logarithm of one is zero and the sign of a result is that of the exact logarithm. The
  correctly rounded logarithm \<open>flog\<close> is one such.
\<close>

definition flog :: "fl \<Rightarrow> fl" where
  \<comment> \<open>the correctly rounded logarithm\<close>
  "flog v = (case v of Fin a \<Rightarrow> if 0 < a then round_fl (ln a) else if a = 0 then NInf else NaN
             | NZero \<Rightarrow> NInf | PInf \<Rightarrow> PInf | NInf \<Rightarrow> NaN | NaN \<Rightarrow> NaN)"

definition np_log_ok :: "(fl \<Rightarrow> fl) \<Rightarrow> bool" where
  "np_log_ok lg \<longleftrightarrow>
     lg NaN = NaN \<and> lg NInf = NaN \<and> lg PInf = PInf \<and> lg (Fin 0) = NInf \<and> lg NZero = NInf \<and>
     (\<forall>a. a < 0 \<longrightarrow> lg (Fin a) = NaN) \<and>
     (\<forall>a. 0 < a \<and> is_double (Fin a) \<longrightarrow>
        is_fin (lg (Fin a)) \<and> is_double (lg (Fin a)) \<and>
        \<bar>fl_val (lg (Fin a)) - ln a\<bar> \<le> \<bar>ln a\<bar> * 2 powr - 50)"

section \<open>NumPy array operations used by the notebook\<close>

text \<open>
  The notebook \<^verbatim>\<open>NMCA3 Option B.ipynb\<close> works on NumPy arrays of floats. A one-dimensional
  array is a list, a two-dimensional array of shape \<open>(N, nT)\<close> is a list of \<open>N\<close> rows of
  \<open>nT\<close> entries, so that \<^verbatim>\<open>V[j, i]\<close> is \<open>V ! j ! i\<close>. Shape errors that NumPy raises
  are values of the type \<open>error\<close>.

  The simulator is written over an arbitrary carrier with \<open>0\<close>, \<open>1\<close>, \<open>+\<close>, \<open>*\<close>, unary
  \<open>-\<close> and \<open>\<le>\<close>; no law of arithmetic is assumed of it, so what is proved of the simulator
  at this generality holds whatever the floating-point operations return (rounding,
  infinities, NaN).
\<close>

datatype error = ValueError | IndexError | TypeError | ZeroDivisionError

definition ebind :: "error + 'a \<Rightarrow> ('a \<Rightarrow> error + 'b) \<Rightarrow> error + 'b" where
  "ebind m k = (case m of Inl e \<Rightarrow> Inl e | Inr v \<Rightarrow> k v)"

definition zeros :: "nat \<Rightarrow> nat \<Rightarrow> 'a::zero list list" where
  \<comment> \<open>\<^verbatim>\<open>np.zeros((N, nT))\<close>\<close>
  "zeros N nT = replicate N (replicate nT 0)"

definition col :: "'a list list \<Rightarrow> nat \<Rightarrow> 'a list" where
  \<comment> \<open>\<^verbatim>\<open>A[:, i]\<close>, read\<close>
  "col A i = map (\<lambda>row. row ! i) A"

definition broadcast2 :: "('a \<Rightarrow> 'b \<Rightarrow> 'c) \<Rightarrow> 'a list \<Rightarrow> 'b list \<Rightarrow> error + 'c list" where
  \<comment> \<open>an elementwise binary operation on two one-dimensional arrays: equal lengths, or
      one of them of length 1 (stretched); NumPy raises ValueError otherwise\<close>
  "broadcast2 f xs ys =
     (if length xs = length ys then Inr (map2 f xs ys)
      else if length xs = 1 then Inr (map (f (hd xs)) ys)
      else if length ys = 1 then Inr (map (\<lambda>a. f a (hd ys)) xs)
      else Inl ValueError)"

definition assign_col :: "'a list list \<Rightarrow> nat \<Rightarrow> 'a list \<Rightarrow> error + 'a list list" where
  \<comment> \<open>\<^verbatim>\<open>A[:, i] = vs\<close>: the value has the length of the column, or length 1 (stretched)\<close>
  "assign_col A i vs =
     (if length vs = length A then Inr (map2 (\<lambda>row v. row[i := v]) A vs)
      else if length vs = 1 then Inr (map (\<lambda>row. row[i := hd vs]) A)
      else Inl ValueError)"

definition bool_index :: "'a list \<Rightarrow> bool list \<Rightarrow> error + 'a list" where
  \<comment> \<open>\<^verbatim>\<open>xs[keep]\<close> with a boolean mask \<open>keep\<close>: it has the length of \<open>xs\<close>; NumPy does not
      compare the length of an empty mask, which selects nothing; any other length raises
      IndexError\<close>
  "bool_index xs keep =
     (if length keep = length xs then Inr (map fst (filter snd (zip xs keep)))
      else if keep = [] then Inr []
      else Inl IndexError)"

definition assign_at :: "'a list list \<Rightarrow> nat list \<Rightarrow> nat \<Rightarrow> 'a \<Rightarrow> 'a list list" where
  \<comment> \<open>\<^verbatim>\<open>A[js, i] = c\<close> for a list \<open>js\<close> of row indices\<close>
  "assign_at A js i c = fold (\<lambda>j B. B[j := (B ! j)[i := c]]) js A"

section \<open>The LIF network simulator\<close>

type_synonym 'a traces = "'a list list \<times> 'a list list \<times> 'a list list"

definition euler_step ::
  "'a::{zero,one,plus,times,uminus,ord} list \<Rightarrow> 'a list \<Rightarrow> 'a list \<Rightarrow> 'a list \<Rightarrow> 'a \<Rightarrow>
     nat \<Rightarrow> 'a traces \<Rightarrow> error + 'a traces" where
  \<comment> \<open>the body of the loop of \<^verbatim>\<open>run_LIF_network\<close> at time step \<open>i\<close>\<close>
  "euler_step x F b T dt i st =
     (case st of (V, s, r) \<Rightarrow>
        ebind (broadcast2 (+) (map uminus (col V (i - 1))) (map (\<lambda>f. f * x ! (i - 1)) F)) (\<lambda>t1.
        ebind (broadcast2 (+) t1 b) (\<lambda>t2.
        ebind (broadcast2 (+) (col V (i - 1)) (map (\<lambda>v. dt * v) t2)) (\<lambda>vnew.
        ebind (assign_col V i vnew) (\<lambda>V1.
        ebind (broadcast2 (+) (col r (i - 1)) (map (\<lambda>v. dt * v) (map uminus (col r (i - 1))))) (\<lambda>t3.
        ebind (broadcast2 (+) t3 (col s (i - 1))) (\<lambda>rnew.
        ebind (assign_col r i rnew) (\<lambda>r1.
        ebind (broadcast2 (\<lambda>v t. t \<le> v) (col V1 i) T) (\<lambda>keep.
        ebind (bool_index [0..<length F] keep) (\<lambda>spiking_neurons.
        Inr (assign_at V1 spiking_neurons i 0, assign_at s spiking_neurons i 1, r1)))))))))))"

primrec euler_loop ::
  "'a::{zero,one,plus,times,uminus,ord} list \<Rightarrow> 'a list \<Rightarrow> 'a list \<Rightarrow> 'a list \<Rightarrow> 'a \<Rightarrow>
     nat list \<Rightarrow> 'a traces \<Rightarrow> error + 'a traces" where
  \<comment> \<open>\<^verbatim>\<open>for i in range(1, nT): ...\<close>, stopping at the first error\<close>
  "euler_loop x F b T dt [] st = Inr st"
| "euler_loop x F b T dt (i # is) st =
     ebind (euler_step x F b T dt i st) (euler_loop x F b T dt is)"

definition run_LIF_network ::
  "'a::{zero,one,plus,times,uminus,ord} list \<Rightarrow> 'a list \<Rightarrow> 'a list \<Rightarrow> 'a list \<Rightarrow> 'a \<Rightarrow>
     error + 'a traces" where
  "run_LIF_network x F b T dt =
     (let nT = length x; N = length F;
          V = zeros N nT; s = zeros N nT; r = zeros N nT
      in euler_loop x F b T dt [1..<nT] (V, s, r))"


section \<open>The simulator on shapes\<close>

text \<open>
  Whether a NumPy operation raises a shape error is decided by the shapes of its operands
  alone. \<open>run_LIF_network_shapes\<close> follows \<^verbatim>\<open>run_LIF_network\<close> statement by statement on
  the shapes of \<open>x\<close>, \<open>F\<close>, \<open>b\<close> and \<open>T\<close> (a shape is the list of the dimensions, \<open>[]\<close> for a
  scalar), for arguments of any number of dimensions; it returns the shapes of the three
  results, or the error. The function is taken as the Python it is written in: the
  \<^verbatim>\<open>@nb.jit\<close> decorator is not modelled.
\<close>

type_synonym shape = "nat list"

definition bc_dim :: "nat \<Rightarrow> nat \<Rightarrow> nat option" where
  \<comment> \<open>two dimensions are compatible when they are equal or one of them is 1\<close>
  "bc_dim a c = (if a = c then Some a else if a = 1 then Some c else if c = 1 then Some a else None)"

fun bc_rev :: "shape \<Rightarrow> shape \<Rightarrow> shape option" where
  \<comment> \<open>broadcasting of two shapes given last dimension first\<close>
  "bc_rev [] cs = Some cs"
| "bc_rev as [] = Some as"
| "bc_rev (a # as) (c # cs) =
     (case bc_dim a c of None \<Rightarrow> None
      | Some d \<Rightarrow> (case bc_rev as cs of None \<Rightarrow> None | Some ds \<Rightarrow> Some (d # ds)))"

definition broadcast_shapes :: "shape \<Rightarrow> shape \<Rightarrow> error + shape" where
  \<comment> \<open>the shape of an elementwise operation on arrays of the two shapes\<close>
  "broadcast_shapes sa sc =
     (case bc_rev (rev sa) (rev sc) of None \<Rightarrow> Inl ValueError | Some ds \<Rightarrow> Inr (rev ds))"

fun strip_ones :: "nat \<Rightarrow> shape \<Rightarrow> shape" where
  \<comment> \<open>leading dimensions of size 1 are dropped while the value has more dimensions than the target\<close>
  "strip_ones n [] = []"
| "strip_ones n (d # ds) = (if n < length (d # ds) \<and> d = 1 then strip_ones n ds else d # ds)"

definition setitem_shapes :: "shape \<Rightarrow> shape \<Rightarrow> error + unit" where
  \<comment> \<open>\<^verbatim>\<open>target[...] = value\<close>: the value is stretched to the target, never the target to the value\<close>
  "setitem_shapes target v =
     (let v' = strip_ones (length target) v
      in if length v' \<le> length target \<and> list_all (\<lambda>(d, t). d = 1 \<or> d = t) (zip (rev v') (rev target))
         then Inr () else Inl ValueError)"

definition step_shapes :: "shape \<Rightarrow> shape \<Rightarrow> shape \<Rightarrow> shape \<Rightarrow> shape \<times> shape \<times> shape \<Rightarrow>
     error + shape \<times> shape \<times> shape" where
  \<comment> \<open>the body of the loop of \<^verbatim>\<open>run_LIF_network\<close>, on shapes; the state arrays have two
      dimensions, and a column of them has the shape \<open>[N]\<close>; the mask that indexes
      \<^verbatim>\<open>np.arange(N)\<close> has the shape \<open>[N]\<close>, or is empty (NumPy does not compare the length
      of an empty mask)\<close>
  "step_shapes x F b T st =
     (case st of (V, s, r) \<Rightarrow>
        ebind (broadcast_shapes F (tl x)) (\<lambda>t1.
        ebind (broadcast_shapes [hd V] t1) (\<lambda>t2.
        ebind (broadcast_shapes t2 b) (\<lambda>t3.
        ebind (broadcast_shapes [hd V] t3) (\<lambda>vnew.
        ebind (setitem_shapes [hd V] vnew) (\<lambda>_.
        ebind (broadcast_shapes [hd r] [hd r]) (\<lambda>t4.
        ebind (broadcast_shapes t4 [hd s]) (\<lambda>rnew.
        ebind (setitem_shapes [hd r] rnew) (\<lambda>_.
        ebind (broadcast_shapes [hd V] T) (\<lambda>keep.
        if keep = [hd F] \<or> keep = [0] then Inr (V, s, r) else Inl IndexError))))))))))"

primrec loop_shapes :: "shape \<Rightarrow> shape \<Rightarrow> shape \<Rightarrow> shape \<Rightarrow> nat list \<Rightarrow> shape \<times> shape \<times> shape \<Rightarrow>
     error + shape \<times> shape \<times> shape" where
  "loop_shapes x F b T [] st = Inr st"
| "loop_shapes x F b T (i # is) st = ebind (step_shapes x F b T st) (loop_shapes x F b T is)"

definition run_LIF_network_shapes :: "shape \<Rightarrow> shape \<Rightarrow> shape \<Rightarrow> shape \<Rightarrow> error + shape \<times> shape \<times> shape" where
  \<comment> \<open>\<^verbatim>\<open>run_LIF_network\<close> on the shapes of \<open>x\<close>, \<open>F\<close>, \<open>b\<close>, \<open>T\<close>: \<^verbatim>\<open>len\<close> is the first
      dimension and raises TypeError on an array without dimensions\<close>
  "run_LIF_network_shapes x F b T =
     (if x = [] \<or> F = [] then Inl TypeError
      else let nT = hd x; N = hd F
           in loop_shapes x F b T [1..<nT] ([N, nT], [N, nT], [N, nT]))"

section \<open>The analytical rate function\<close>

text \<open>
  \<^verbatim>\<open>LIF_io(x, f, b, T)\<close> is written with arithmetic operators, \<^verbatim>\<open>np.log\<close> and two masked
  assignments, which take Python floats, NumPy scalars (\<^verbatim>\<open>np.float64\<close>) and NumPy arrays of
  float64 of any number of dimensions. An array is its shape and its entries in row-major
  order; the shape \<open>[]\<close> is that of an array without dimensions.

  An operator on two Python floats is Python's: a division by a zero raises
  ZeroDivisionError. As soon as one operand is a NumPy scalar or array the operator is
  NumPy's: its floating-point warnings (division by zero, invalid value, overflow) are
  warnings, not errors, two arrays are broadcast, and a result without dimensions is handed
  out as a scalar. \<^verbatim>\<open>np.log\<close> gives a NumPy value also for a Python float. A float has no
  item assignment: \<^verbatim>\<open>rate[...] = 0\<close> on a scalar raises TypeError.
\<close>

datatype num = PyFloat fl | NpFloat fl | NdArray shape "fl list"

datatype mask = NpBool bool | BoolArray shape "bool list"

definition chunks :: "nat \<Rightarrow> nat \<Rightarrow> 'a list \<Rightarrow> 'a list list" where
  \<comment> \<open>the first \<open>n\<close> consecutive pieces of length \<open>k\<close>\<close>
  "chunks n k xs = map (\<lambda>i. take k (drop (i * k) xs)) [0..<n]"

fun stretch_to :: "shape \<Rightarrow> shape \<Rightarrow> 'a list \<Rightarrow> 'a list" where
  \<comment> \<open>the row-major data of an array of shape \<open>s\<close>, broadcast to the shape \<open>t\<close>\<close>
  "stretch_to [] s xs = xs"
| "stretch_to (m # t) s xs =
     (if length s \<le> length t then concat (replicate m (stretch_to t s xs))
      else if hd s = m then concat (map (stretch_to t (tl s)) (chunks m (prod_list (tl s)) xs))
      else concat (replicate m (stretch_to t (tl s) xs)))"

definition unbox :: "shape \<Rightarrow> fl list \<Rightarrow> num" where
  \<comment> \<open>the result of an operation on arrays: NumPy hands out a result without dimensions as a
      scalar \<^verbatim>\<open>np.float64\<close>\<close>
  "unbox sh xs = (if sh = [] then NpFloat (hd xs) else NdArray sh xs)"

fun binop :: "(fl \<Rightarrow> fl \<Rightarrow> error + fl) \<Rightarrow> (fl \<Rightarrow> fl \<Rightarrow> fl) \<Rightarrow> num \<Rightarrow> num \<Rightarrow> error + num" where
  \<comment> \<open>a binary arithmetic operator: Python's own on two Python floats, NumPy's as soon as one
      operand is a NumPy scalar or array\<close>
  "binop py np (PyFloat a) (PyFloat c) = ebind (py a c) (\<lambda>r. Inr (PyFloat r))"
| "binop py np (PyFloat a) (NpFloat c) = Inr (NpFloat (np a c))"
| "binop py np (NpFloat a) (PyFloat c) = Inr (NpFloat (np a c))"
| "binop py np (NpFloat a) (NpFloat c) = Inr (NpFloat (np a c))"
| "binop py np (PyFloat a) (NdArray sh ys) = Inr (unbox sh (map (np a) ys))"
| "binop py np (NpFloat a) (NdArray sh ys) = Inr (unbox sh (map (np a) ys))"
| "binop py np (NdArray sh xs) (PyFloat c) = Inr (unbox sh (map (\<lambda>a. np a c) xs))"
| "binop py np (NdArray sh xs) (NpFloat c) = Inr (unbox sh (map (\<lambda>a. np a c) xs))"
| "binop py np (NdArray sh xs) (NdArray sh' ys) =
     (if sh = sh' then Inr (unbox sh (map2 np xs ys))
      else ebind (broadcast_shapes sh sh') (\<lambda>t.
             Inr (unbox t (map2 np (stretch_to t sh xs) (stretch_to t sh' ys)))))"

definition add :: "num \<Rightarrow> num \<Rightarrow> error + num" where
  "add = binop (\<lambda>a c. Inr (a + c)) (+)"

definition sub :: "num \<Rightarrow> num \<Rightarrow> error + num" where
  "sub = binop (\<lambda>a c. Inr (a - c)) (-)"

definition mul :: "num \<Rightarrow> num \<Rightarrow> error + num" where
  "mul = binop (\<lambda>a c. Inr (a * c)) (*)"

definition true_divide :: "num \<Rightarrow> num \<Rightarrow> error + num" where
  \<comment> \<open>\<^verbatim>\<open>/\<close>: Python raises ZeroDivisionError on a zero divisor, NumPy returns an infinity or NaN\<close>
  "true_divide = binop (\<lambda>a c. if fl_zero c then Inl ZeroDivisionError else Inr (a / c)) (/)"

fun np_log :: "(fl \<Rightarrow> fl) \<Rightarrow> num \<Rightarrow> num" where
  \<comment> \<open>\<^verbatim>\<open>np.log\<close>, over the logarithm \<open>lg\<close> of one float; the result is a NumPy value\<close>
  "np_log lg (PyFloat a) = NpFloat (lg a)"
| "np_log lg (NpFloat a) = NpFloat (lg a)"
| "np_log lg (NdArray sh xs) = unbox sh (map lg xs)"

fun test :: "(fl \<Rightarrow> bool) \<Rightarrow> num \<Rightarrow> mask" where
  \<comment> \<open>an elementwise test (\<^verbatim>\<open>out <= 0\<close>, \<^verbatim>\<open>np.isnan(rate)\<close>)\<close>
  "test p (PyFloat a) = NpBool (p a)"
| "test p (NpFloat a) = NpBool (p a)"
| "test p (NdArray sh xs) = (if sh = [] then NpBool (p (hd xs)) else BoolArray sh (map p xs))"

definition mask_assign :: "'a list \<Rightarrow> bool list \<Rightarrow> 'a \<Rightarrow> 'a list" where
  \<comment> \<open>\<^verbatim>\<open>a[m] = c\<close> on the data, for a boolean mask \<open>m\<close> of the shape of \<open>a\<close>\<close>
  "mask_assign a m c = map2 (\<lambda>v k. if k then c else v) a m"

definition mask_fits :: "shape \<Rightarrow> shape \<Rightarrow> bool" where
  \<comment> \<open>a boolean mask of shape \<open>sm\<close> indexes an array of shape \<open>sh\<close>: it has the leading
      dimensions of the array; NumPy does not compare a dimension 0 of the mask, unless mask
      and array have the same number of dimensions and of entries\<close>
  "mask_fits sm sh \<longleftrightarrow>
     (if length sm = length sh \<and> prod_list sm = prod_list sh then sm = sh
      else length sm \<le> length sh \<and> list_all (\<lambda>(m, d). m = d \<or> m = 0) (zip sm sh))"

fun setitem_mask :: "num \<Rightarrow> mask \<Rightarrow> fl \<Rightarrow> error + num" where
  \<comment> \<open>\<^verbatim>\<open>target[m] = c\<close>: a float has no item assignment\<close>
  "setitem_mask (PyFloat a) m c = Inl TypeError"
| "setitem_mask (NpFloat a) m c = Inl TypeError"
| "setitem_mask (NdArray sh xs) (NpBool k) c = Inr (NdArray sh (if k then map (\<lambda>v. c) xs else xs))"
| "setitem_mask (NdArray sh xs) (BoolArray sm ks) c =
     (if sm = sh then Inr (NdArray sh (mask_assign xs ks c))
      else if \<not> mask_fits sm sh then Inl IndexError
      else if 0 \<in> set sm then Inr (NdArray sh xs)
      else let k = prod_list (drop (length sm) sh)
           in Inr (NdArray sh (concat (map2 (\<lambda>blk keep. if keep then map (\<lambda>v. c) blk else blk)
                                         (chunks (prod_list sm) k xs) ks))))"

definition LIF_io :: "(fl \<Rightarrow> fl) \<Rightarrow> num \<Rightarrow> num \<Rightarrow> num \<Rightarrow> num \<Rightarrow> error + num" where
  "LIF_io lg x f b T =
     ebind (mul f x) (\<lambda>fx.
     ebind (add fx b) (\<lambda>u.
     ebind (mul f x) (\<lambda>fx'.
     ebind (add fx' b) (\<lambda>u'.
     ebind (sub u' T) (\<lambda>d.
     ebind (true_divide u d) (\<lambda>q.
     let out = np_log lg q in
     ebind (true_divide (PyFloat 1) out) (\<lambda>rate.
     ebind (setitem_mask rate (test (\<lambda>v. v \<le> 0) out) 0) (\<lambda>rate.
     ebind (setitem_mask rate (test isnan rate) 0) (\<lambda>rate.
     Inr rate)))))))))"

definition rate_at :: "(fl \<Rightarrow> fl) \<Rightarrow> fl \<Rightarrow> fl \<Rightarrow> fl \<Rightarrow> fl \<Rightarrow> fl" where
  \<comment> \<open>one entry of the array \<^verbatim>\<open>LIF_io\<close> returns\<close>
  "rate_at lg f b T v =
     (let out = lg ((f * v + b) / (f * v + b - T));
          rate = 1 / out;
          rate = (if out \<le> 0 then 0 else rate)
      in if isnan rate then 0 else rate)"

fun float_of :: "num \<Rightarrow> fl" where
  \<comment> \<open>the value of a scalar\<close>
  "float_of (PyFloat a) = a"
| "float_of (NpFloat a) = a"
| "float_of (NdArray sh xs) = hd xs"

fun is_float :: "num \<Rightarrow> bool" where
  \<comment> \<open>a Python float or a \<^verbatim>\<open>np.float64\<close>\<close>
  "is_float (NdArray sh xs) = False"
| "is_float u = True"

fun is_python :: "num \<Rightarrow> bool" where
  "is_python (PyFloat a) = True"
| "is_python u = False"

section \<open>The decoder fit\<close>

text \<open>
  The notebook gives the decoder as a formula and leaves its code to the reader (the code
  cells of Exercise 2 are empty). The definitions of this section are written from the
  specification of the decoder fitter. A matrix is a function from the row and the column
  index to the entry, with its dimensions given beside it: \<open>R\<close> has \<open>N\<close> rows (neurons) and
  \<open>n\<close> columns (samples), \<open>Y\<close> has \<open>m\<close> rows (outputs) and \<open>n\<close> columns, \<open>D\<close> has \<open>m\<close> rows
  and \<open>N\<close> columns. Entries are real numbers.
\<close>

type_synonym matrix = "nat \<Rightarrow> nat \<Rightarrow> real"

definition gram :: "matrix \<Rightarrow> nat \<Rightarrow> real \<Rightarrow> matrix" where
  \<comment> \<open>Modelled from the spec: the decoder fit is not in the notebook; this is the matrix
      \<open>R\<cdot>R\<^sup>t + \<lambda>\<cdot>I\<close> of its formula\<close>
  "gram R n lam = (\<lambda>i j. (\<Sum>k<n. R i k * R j k) + (if i = j then lam else 0))"

definition inverse_of :: "nat \<Rightarrow> matrix \<Rightarrow> matrix \<Rightarrow> bool" where
  \<comment> \<open>Modelled from the spec: the decoder fit is not in the notebook; \<open>B\<close> is the inverse of the
      \<open>n \<times> n\<close> matrix \<open>A\<close> (the product is the identity on both sides)\<close>
  "inverse_of n A B \<longleftrightarrow>
     (\<forall>i<n. \<forall>j<n. (\<Sum>l<n. A i l * B l j) = (if i = j then 1 else 0)) \<and>
     (\<forall>i<n. \<forall>j<n. (\<Sum>l<n. B i l * A l j) = (if i = j then 1 else 0))"

definition decoder :: "matrix \<Rightarrow> matrix \<Rightarrow> matrix \<Rightarrow> nat \<Rightarrow> nat \<Rightarrow> matrix" where
  \<comment> \<open>Modelled from the spec: the decoder fit is not in the notebook; this is
      \<open>D = Y\<cdot>R\<^sup>t\<cdot>B\<close>, with \<open>B\<close> standing for \<open>(R\<cdot>R\<^sup>t + \<lambda>\<cdot>I)\<^sup>-\<^sup>1\<close>\<close>
  "decoder Y R B N n = (\<lambda>p j. \<Sum>l<N. (\<Sum>k<n. Y p k * R l k) * B l j)"

definition ridge_loss :: "matrix \<Rightarrow> matrix \<Rightarrow> real \<Rightarrow> nat \<Rightarrow> nat \<Rightarrow> nat \<Rightarrow> matrix \<Rightarrow> real" where
  \<comment> \<open>Modelled from the spec: the decoder fit is not in the notebook; this is the ridge loss
      \<open>\<parallel>Y - D\<cdot>R\<parallel>\<^sup>2 + \<lambda>\<parallel>D\<parallel>\<^sup>2\<close> (sums of squared entries)\<close>
  "ridge_loss Y R lam m N n D =
     (\<Sum>p<m. \<Sum>k<n. (Y p k - (\<Sum>j<N. D p j * R j k))\<^sup>2) + lam * (\<Sum>p<m. \<Sum>j<N. (D p j)\<^sup>2)"

definition quad :: "nat \<Rightarrow> matrix \<Rightarrow> (nat \<Rightarrow> real) \<Rightarrow> real" where
  \<comment> \<open>the quadratic form \<open>v\<^sup>t\<cdot>A\<cdot>v\<close> of an \<open>n \<times> n\<close> matrix\<close>
  "quad n A v = (\<Sum>i<n. \<Sum>j<n. v i * A i j * v j)"

definition pos_def :: "nat \<Rightarrow> matrix \<Rightarrow> bool" where
  \<comment> \<open>symmetric and positive definite, on the indices below \<open>n\<close>\<close>
  "pos_def n A \<longleftrightarrow> (\<forall>i<n. \<forall>j<n. A i j = A j i) \<and> (\<forall>v. (\<exists>i<n. v i \<noteq> 0) \<longrightarrow> 0 < quad n A v)"

definition schur :: "nat \<Rightarrow> matrix \<Rightarrow> matrix" where
  \<comment> \<open>the Schur complement of the entry \<open>A n n\<close>: one step of elimination\<close>
  "schur n A = (\<lambda>i j. A i j - A i n * A n j / A n n)"

section \<open>Notions used in the statements\<close>

definition stretch :: "nat \<Rightarrow> 'a list \<Rightarrow> 'a list" where
  \<comment> \<open>an array of length \<open>N\<close> as it is, an array of length 1 repeated \<open>N\<close> times\<close>
  "stretch N ys = (if length ys = N then ys else replicate N (hd ys))"

definition pre_reset :: "'a::{plus,times,uminus} list \<Rightarrow> 'a list \<Rightarrow> 'a list \<Rightarrow> 'a \<Rightarrow> 'a list list \<Rightarrow> nat \<Rightarrow> nat \<Rightarrow> 'a" where
  \<comment> \<open>the value the voltage update assigns to \<^verbatim>\<open>V[j, i]\<close>, before spike detection looks at it:
      one entry of \<^verbatim>\<open>V[:, i-1] + dt*(-V[:, i-1] + F*x[i-1] + b)\<close>\<close>
  "pre_reset x F b dt V j i = V ! j ! (i - 1) + dt * (- (V ! j ! (i - 1)) + F ! j * x ! (i - 1) + b ! j)"

definition shape_ok :: "nat \<Rightarrow> nat \<Rightarrow> 'a list list \<Rightarrow> bool" where
  \<comment> \<open>the array has shape \<open>(N, nT)\<close>\<close>
  "shape_ok N nT A \<longleftrightarrow> length A = N \<and> (\<forall>row \<in> set A. length row = nT)"

definition lif_inv :: "'a::{zero,one,plus,times,uminus,ord} list \<Rightarrow> 'a list \<Rightarrow> 'a list \<Rightarrow> 'a list \<Rightarrow> 'a \<Rightarrow> nat \<Rightarrow> nat \<Rightarrow> 'a traces \<Rightarrow> bool" where
  \<comment> \<open>the loop invariant after the steps \<open>1..k\<close>: the shapes, the untouched columns (column 0 and
      the columns after \<open>k\<close>) are zero, and every processed column is the update of the one before\<close>
  "lif_inv x F b T dt nT k st \<longleftrightarrow>
     (case st of (V, s, r) \<Rightarrow>
        shape_ok (length F) nT V \<and> shape_ok (length F) nT s \<and> shape_ok (length F) nT r \<and>
        (\<forall>j < length F. \<forall>i < nT. i = 0 \<or> k < i \<longrightarrow> V ! j ! i = 0 \<and> s ! j ! i = 0 \<and> r ! j ! i = 0) \<and>
        (\<forall>j < length F. \<forall>i. 1 \<le> i \<and> i \<le> k \<longrightarrow>
           V ! j ! i = (if T ! j \<le> pre_reset x F b dt V j i then 0 else pre_reset x F b dt V j i) \<and>
           s ! j ! i = (if T ! j \<le> pre_reset x F b dt V j i then 1 else 0) \<and>
           r ! j ! i = r ! j ! (i - 1) + dt * (- (r ! j ! (i - 1))) + s ! j ! (i - 1)))"

definition rate_inv :: "'a::{zero,one,plus,times,uminus,ord} \<Rightarrow> nat \<Rightarrow> nat \<Rightarrow> nat \<Rightarrow> 'a list list \<Rightarrow> 'a list list \<Rightarrow> bool" where
  \<comment> \<open>what the steps \<open>1..k\<close> leave in the spike array and the filtered rates, whatever the
      voltages, biases and thresholds are: spikes are 0 or 1, the untouched columns are zero,
      and every processed column of the rates is the update of the one before\<close>
  "rate_inv dt N nT k s r \<longleftrightarrow>
     shape_ok N nT s \<and> shape_ok N nT r \<and>
     (\<forall>j < N. \<forall>i < nT.
        (s ! j ! i = 0 \<or> s ! j ! i = 1) \<and>
        (i = 0 \<or> k < i \<longrightarrow> s ! j ! i = 0 \<and> r ! j ! i = 0) \<and>
        (1 \<le> i \<and> i \<le> k \<longrightarrow> r ! j ! i = r ! j ! (i - 1) + dt * (- (r ! j ! (i - 1))) + s ! j ! (i - 1)))"

section \<open>Array operations: basic facts\<close>

lemma ebind_Inr [simp]: "ebind (Inr v) k = k v"
  by (simp add: ebind_def)

lemma ebind_Inl [simp]: "ebind (Inl e) k = Inl e"
  by (simp add: ebind_def)

lemma ebind_eq_Inr: "ebind m k = Inr y \<longleftrightarrow> (\<exists>v. m = Inr v \<and> k v = Inr y)"
  by (cases m) simp_all

lemma broadcast2_same: "length xs = length ys \<Longrightarrow> broadcast2 f xs ys = Inr (map2 f xs ys)"
  by (simp add: broadcast2_def)

lemma assign_col_same:
  "length vs = length A \<Longrightarrow> assign_col A i vs = Inr (map2 (\<lambda>row v. row[i := v]) A vs)"
  by (simp add: assign_col_def)

lemma bool_index_same:
  "length keep = length xs \<Longrightarrow> bool_index xs keep = Inr (map fst (filter snd (zip xs keep)))"
  by (simp add: bool_index_def)

lemma set_spiking:
  "length keep = N \<Longrightarrow> set (map fst (filter snd (zip [0..<N] keep))) = {j. j < N \<and> keep ! j}"
  by (auto simp: set_zip image_iff) force

lemma length_assign_at [simp]: "length (assign_at A js i c) = length A"
  unfolding assign_at_def by (induction js arbitrary: A) auto

lemma nth_assign_at:
  "j < length A \<Longrightarrow> assign_at A js i c ! j = (if j \<in> set js then (A ! j)[i := c] else A ! j)"
  unfolding assign_at_def
proof (induction js arbitrary: A)
  case Nil
  then show ?case by simp
next
  case (Cons a js)
  show ?case
  proof (cases "a = j")
    case True
    with Cons show ?thesis by (simp add: nth_list_update)
  next
    case False
    with Cons show ?thesis by (simp add: nth_list_update)
  qed
qed

lemma shape_ok_nth: "shape_ok N nT A \<longleftrightarrow> length A = N \<and> (\<forall>j<N. length (A ! j) = nT)"
  by (auto simp: shape_ok_def all_set_conv_all_nth)

lemma shape_okD: "shape_ok N nT A \<Longrightarrow> length A = N" "shape_ok N nT A \<Longrightarrow> j < N \<Longrightarrow> length (A ! j) = nT"
  by (auto simp: shape_ok_nth)

lemma shape_ok_zeros: "shape_ok N nT (zeros N nT)"
  by (simp add: shape_ok_def zeros_def)

lemma nth_zeros: "j < N \<Longrightarrow> i < nT \<Longrightarrow> zeros N nT ! j ! i = 0"
  by (simp add: zeros_def)

lemma shape_ok_assign_at: "shape_ok N nT A \<Longrightarrow> shape_ok N nT (assign_at A js i c)"
  by (auto simp: shape_ok_nth nth_assign_at)

lemma shape_ok_map2_update:
  "shape_ok N nT A \<Longrightarrow> length vs = N \<Longrightarrow> shape_ok N nT (map2 (\<lambda>row v. row[i := v]) A vs)"
  by (auto simp: shape_ok_nth)

lemma nth_map2_update:
  "length A = N \<Longrightarrow> length vs = N \<Longrightarrow> j < N \<Longrightarrow>
     map2 (\<lambda>row v. row[i := v]) A vs ! j = (A ! j)[i := vs ! j]"
  by simp

section \<open>The simulator on inputs of the documented shapes\<close>

text \<open>
  One step on well-shaped traces, for biases and thresholds of length \<open>N\<close> or of length 1
  (which NumPy stretches).
\<close>

lemma stretch_same [simp]: "length ys = N \<Longrightarrow> stretch N ys = ys"
  by (simp add: stretch_def)

lemma length_stretch: "length ys = N \<or> length ys = 1 \<Longrightarrow> length (stretch N ys) = N"
  by (auto simp: stretch_def)

lemma map2_replicate: "length xs = N \<Longrightarrow> map2 f xs (replicate N c) = map (\<lambda>a. f a c) xs"
  by (simp add: list_eq_iff_nth_eq)

lemma broadcast2_stretched:
  assumes "length xs = N" and "length ys = N \<or> length ys = 1"
  shows "broadcast2 f xs ys = Inr (map2 f xs (stretch N ys))"
proof (cases "length ys = N")
  case True
  then show ?thesis using assms(1) by (simp add: broadcast2_def)
next
  case False
  with assms have "length ys = 1" by simp
  with False assms(1) show ?thesis
    by (simp add: stretch_def broadcast2_def map2_replicate)
qed

lemma euler_step_bc:
  fixes x :: "'a::{zero,one,plus,times,uminus,ord} list"
  assumes b: "length b = length F \<or> length b = 1" and T: "length T = length F \<or> length T = 1"
    and V: "shape_ok (length F) nT V" and s: "shape_ok (length F) nT s" and r: "shape_ok (length F) nT r"
    and i: "i < nT"
  shows "\<exists>V' s' r'. euler_step x F b T dt i (V, s, r) = Inr (V', s', r') \<and>
           shape_ok (length F) nT V' \<and> shape_ok (length F) nT s' \<and> shape_ok (length F) nT r' \<and>
           (\<forall>j < length F. \<forall>k < nT.
              V' ! j ! k = (if k = i then (if stretch (length F) T ! j \<le> pre_reset x F (stretch (length F) b) dt V j i then 0
                                          else pre_reset x F (stretch (length F) b) dt V j i) else V ! j ! k) \<and>
              s' ! j ! k = (if k = i \<and> stretch (length F) T ! j \<le> pre_reset x F (stretch (length F) b) dt V j i then 1 else s ! j ! k) \<and>
              r' ! j ! k = (if k = i then r ! j ! (i - 1) + dt * (- (r ! j ! (i - 1))) + s ! j ! (i - 1) else r ! j ! k))"
proof -
  let ?N = "length F"
  let ?b = "stretch ?N b"
  let ?T = "stretch ?N T"
  define t1 where "t1 = map2 (+) (map uminus (col V (i - 1))) (map (\<lambda>f. f * x ! (i - 1)) F)"
  define t2 where "t2 = map2 (+) t1 ?b"
  define vnew where "vnew = map2 (+) (col V (i - 1)) (map (\<lambda>v. dt * v) t2)"
  define V1 where "V1 = map2 (\<lambda>row v. row[i := v]) V vnew"
  define t3 where "t3 = map2 (+) (col r (i - 1)) (map (\<lambda>v. dt * v) (map uminus (col r (i - 1))))"
  define rnew where "rnew = map2 (+) t3 (col s (i - 1))"
  define r1 where "r1 = map2 (\<lambda>row v. row[i := v]) r rnew"
  define keep where "keep = map2 (\<lambda>v t. t \<le> v) (col V1 i) ?T"
  define sp where "sp = map fst (filter snd (zip [0..<?N] keep))"
  have lb: "length ?b = ?N" and lT: "length ?T = ?N"
    using length_stretch[OF b] length_stretch[OF T] by simp_all
  have lV: "length V = ?N" and ls: "length s = ?N" and lr: "length r = ?N"
    using V s r by (simp_all add: shape_okD)
  have lt1: "length t1 = ?N" using lV by (simp add: col_def t1_def)
  have lt2: "length t2 = ?N" using lt1 lb by (simp add: t2_def)
  have lvnew: "length vnew = ?N" using lV lt2 by (simp add: col_def vnew_def)
  have lt3: "length t3 = ?N" using lr by (simp add: col_def t3_def)
  have lrnew: "length rnew = ?N" using lt3 ls by (simp add: col_def rnew_def)
  have shV1: "shape_ok ?N nT V1" unfolding V1_def using shape_ok_map2_update[OF V lvnew] .
  have shr1: "shape_ok ?N nT r1" unfolding r1_def using shape_ok_map2_update[OF r lrnew] .
  have lV1: "length V1 = ?N" using shape_okD(1)[OF shV1] .
  have lkeep: "length keep = ?N" using lV1 lT by (simp add: col_def keep_def)
  have e1: "broadcast2 (+) (map uminus (col V (i - 1))) (map (\<lambda>f. f * x ! (i - 1)) F) = Inr t1"
    using lV by (simp add: broadcast2_same col_def t1_def)
  have e2: "broadcast2 (+) t1 b = Inr t2"
    unfolding t2_def using broadcast2_stretched[OF lt1 b] .
  have e3: "broadcast2 (+) (col V (i - 1)) (map (\<lambda>v. dt * v) t2) = Inr vnew"
    using lV lt2 by (simp add: broadcast2_same col_def vnew_def)
  have e4: "assign_col V i vnew = Inr V1"
    using lV lvnew by (simp add: assign_col_same V1_def)
  have e5: "broadcast2 (+) (col r (i - 1)) (map (\<lambda>v. dt * v) (map uminus (col r (i - 1)))) = Inr t3"
    by (simp add: broadcast2_same col_def t3_def)
  have e6: "broadcast2 (+) t3 (col s (i - 1)) = Inr rnew"
    using lt3 ls by (simp add: broadcast2_same col_def rnew_def)
  have e7: "assign_col r i rnew = Inr r1"
    using lr lrnew by (simp add: assign_col_same r1_def)
  have e8: "broadcast2 (\<lambda>v t. t \<le> v) (col V1 i) T = Inr keep"
    unfolding keep_def using broadcast2_stretched[of "col V1 i" ?N T] lV1 T by (simp add: col_def)
  have e9: "bool_index [0..<?N] keep = Inr sp"
    using lkeep by (simp add: bool_index_same sp_def)
  have step: "euler_step x F b T dt i (V, s, r) = Inr (assign_at V1 sp i 0, assign_at s sp i 1, r1)"
    unfolding euler_step_def prod.case e1 ebind_Inr e2 e3 e4 e5 e6 e7 e8 e9 ..
  have vnew: "vnew ! j = pre_reset x F ?b dt V j i" if "j < ?N" for j
    using that lV lb lt1 lt2 by (simp add: col_def pre_reset_def vnew_def t2_def t1_def)
  have rnew: "rnew ! j = r ! j ! (i - 1) + dt * (- (r ! j ! (i - 1))) + s ! j ! (i - 1)" if "j < ?N" for j
    using that lr ls by (simp add: col_def rnew_def t3_def)
  have V1: "V1 ! j = (V ! j)[i := pre_reset x F ?b dt V j i]" if "j < ?N" for j
    unfolding V1_def using nth_map2_update[OF lV lvnew that, of i] vnew[OF that] by simp
  have r1: "r1 ! j = (r ! j)[i := r ! j ! (i - 1) + dt * (- (r ! j ! (i - 1))) + s ! j ! (i - 1)]" if "j < ?N" for j
    unfolding r1_def using nth_map2_update[OF lr lrnew that, of i] rnew[OF that] by simp
  have keep: "keep ! j = (?T ! j \<le> pre_reset x F ?b dt V j i)" if "j < ?N" for j
  proof -
    have "col V1 i ! j = V1 ! j ! i" using that lV1 by (simp add: col_def)
    also have "\<dots> = pre_reset x F ?b dt V j i"
      using V1[OF that] shape_okD(2)[OF V that] i by simp
    finally show ?thesis using that lV1 lT by (simp add: col_def keep_def)
  qed
  have sp: "j \<in> set sp \<longleftrightarrow> ?T ! j \<le> pre_reset x F ?b dt V j i" if "j < ?N" for j
    unfolding sp_def using set_spiking[OF lkeep] keep[OF that] that by simp
  have entries: "assign_at V1 sp i 0 ! j ! k = (if k = i then (if ?T ! j \<le> pre_reset x F ?b dt V j i then 0 else pre_reset x F ?b dt V j i) else V ! j ! k) \<and>
              assign_at s sp i 1 ! j ! k = (if k = i \<and> ?T ! j \<le> pre_reset x F ?b dt V j i then 1 else s ! j ! k) \<and>
              r1 ! j ! k = (if k = i then r ! j ! (i - 1) + dt * (- (r ! j ! (i - 1))) + s ! j ! (i - 1) else r ! j ! k)"
    if j: "j < ?N" and k: "k < nT" for j k
  proof -
    have lVj: "length (V ! j) = nT" and lsj: "length (s ! j) = nT" and lrj: "length (r ! j) = nT"
      using shape_okD(2)[OF V j] shape_okD(2)[OF s j] shape_okD(2)[OF r j] by simp_all
    have a: "assign_at V1 sp i 0 ! j = (if ?T ! j \<le> pre_reset x F ?b dt V j i then (V1 ! j)[i := 0] else V1 ! j)"
      using nth_assign_at[of j V1 sp i 0] j lV1 sp[OF j] by simp
    have c: "assign_at s sp i 1 ! j = (if ?T ! j \<le> pre_reset x F ?b dt V j i then (s ! j)[i := 1] else s ! j)"
      using nth_assign_at[of j s sp i 1] j ls sp[OF j] by simp
    show ?thesis
      using a c V1[OF j] r1[OF j] lVj lsj lrj k i by (simp add: nth_list_update)
  qed
  show ?thesis
    using step shape_ok_assign_at[OF shV1] shape_ok_assign_at[OF s] shr1 entries by blast
qed

lemma lif_inv_shape:
  assumes "lif_inv x F b T dt nT k (V, s, r)"
  shows "shape_ok (length F) nT V" "shape_ok (length F) nT s" "shape_ok (length F) nT r"
  using assms unfolding lif_inv_def by simp_all

lemma lif_inv_zero:
  assumes "lif_inv x F b T dt nT k (V, s, r)" and "j < length F" and "i < nT" and "i = 0 \<or> k < i"
  shows "V ! j ! i = 0 \<and> s ! j ! i = 0 \<and> r ! j ! i = 0"
  using assms unfolding lif_inv_def by blast

lemma lif_inv_rec:
  assumes "lif_inv x F b T dt nT k (V, s, r)" and "j < length F" and "1 \<le> i" and "i \<le> k"
  shows "V ! j ! i = (if T ! j \<le> pre_reset x F b dt V j i then 0 else pre_reset x F b dt V j i) \<and>
         s ! j ! i = (if T ! j \<le> pre_reset x F b dt V j i then 1 else 0) \<and>
         r ! j ! i = r ! j ! (i - 1) + dt * (- (r ! j ! (i - 1))) + s ! j ! (i - 1)"
  using assms unfolding lif_inv_def by blast

lemma euler_loop_append:
  "euler_loop x F b T dt (is @ js) st = ebind (euler_loop x F b T dt is st) (euler_loop x F b T dt js)"
  by (induction "is" arbitrary: st) (auto simp: ebind_def split: sum.splits)

lemma lif_inv_zeros: "lif_inv x F b T dt nT 0 (zeros (length F) nT, zeros (length F) nT, zeros (length F) nT)"
  by (simp add: lif_inv_def shape_ok_zeros nth_zeros)

lemma lif_inv_step:
  assumes b: "length b = length F \<or> length b = 1" and T: "length T = length F \<or> length T = 1"
    and inv: "lif_inv x F (stretch (length F) b) (stretch (length F) T) dt nT k st" and k: "Suc k < nT"
  shows "\<exists>st'. euler_step x F b T dt (Suc k) st = Inr st' \<and> lif_inv x F (stretch (length F) b) (stretch (length F) T) dt nT (Suc k) st'"
proof -
  obtain V s r where st: "st = (V, s, r)" by (cases st) auto
  note inv' = inv[unfolded st]
  note shV = lif_inv_shape(1)[OF inv'] and shs = lif_inv_shape(2)[OF inv'] and shr = lif_inv_shape(3)[OF inv']
    and zero = lif_inv_zero[OF inv'] and rec = lif_inv_rec[OF inv']
  from euler_step_bc[OF b T shV shs shr k, of x dt]
  obtain V' s' r' where step: "euler_step x F b T dt (Suc k) (V, s, r) = Inr (V', s', r')"
    and shV': "shape_ok (length F) nT V'" and shs': "shape_ok (length F) nT s'" and shr': "shape_ok (length F) nT r'"
    and ent: "\<And>j i. j < length F \<Longrightarrow> i < nT \<Longrightarrow>
              V' ! j ! i = (if i = Suc k then (if stretch (length F) T ! j \<le> pre_reset x F (stretch (length F) b) dt V j (Suc k) then 0 else pre_reset x F (stretch (length F) b) dt V j (Suc k)) else V ! j ! i) \<and>
              s' ! j ! i = (if i = Suc k \<and> stretch (length F) T ! j \<le> pre_reset x F (stretch (length F) b) dt V j (Suc k) then 1 else s ! j ! i) \<and>
              r' ! j ! i = (if i = Suc k then r ! j ! (Suc k - 1) + dt * (- (r ! j ! (Suc k - 1))) + s ! j ! (Suc k - 1) else r ! j ! i)"
    by blast
  have same: "V' ! j ! i = V ! j ! i \<and> s' ! j ! i = s ! j ! i \<and> r' ! j ! i = r ! j ! i"
    if "j < length F" "i < nT" "i \<noteq> Suc k" for j i
    using ent[OF that(1,2)] that(3) by simp
  have pre: "pre_reset x F (stretch (length F) b) dt V' j i = pre_reset x F (stretch (length F) b) dt V j i"
    if "j < length F" "1 \<le> i" "i \<le> Suc k" for j i
  proof -
    have "i - 1 < nT" "i - 1 \<noteq> Suc k" using that k by auto
    from same[OF that(1) this] show ?thesis by (simp add: pre_reset_def)
  qed
  have zero': "V' ! j ! i = 0 \<and> s' ! j ! i = 0 \<and> r' ! j ! i = 0"
    if "j < length F" "i < nT" "i = 0 \<or> Suc k < i" for j i
  proof -
    have "i \<noteq> Suc k" "i = 0 \<or> k < i" using that by auto
    with same[OF that(1,2)] zero[OF that(1,2)] show ?thesis by simp
  qed
  have rec': "V' ! j ! i = (if stretch (length F) T ! j \<le> pre_reset x F (stretch (length F) b) dt V' j i then 0 else pre_reset x F (stretch (length F) b) dt V' j i) \<and>
           s' ! j ! i = (if stretch (length F) T ! j \<le> pre_reset x F (stretch (length F) b) dt V' j i then 1 else 0) \<and>
           r' ! j ! i = r' ! j ! (i - 1) + dt * (- (r' ! j ! (i - 1))) + s' ! j ! (i - 1)"
    if j: "j < length F" and i1: "1 \<le> i" and ik: "i \<le> Suc k" for j i
  proof (cases "i = Suc k")
    case True
    have "k < nT" "k \<noteq> Suc k" using k by auto
    from same[OF j this] have p: "r' ! j ! k = r ! j ! k" "s' ! j ! k = s ! j ! k" by simp_all
    have z: "s ! j ! Suc k = 0" using zero[OF j k] by simp
    show ?thesis using ent[OF j k] pre[OF j i1 ik] p z True by simp
  next
    case False
    then have ik': "i \<le> k" using ik by simp
    have a: "i < nT" "i \<noteq> Suc k" using ik' k by auto
    have c: "i - 1 < nT" "i - 1 \<noteq> Suc k" using ik' k by auto
    show ?thesis using rec[OF j i1 ik'] same[OF j a] same[OF j c] pre[OF j i1 ik] by simp
  qed
  have "lif_inv x F (stretch (length F) b) (stretch (length F) T) dt nT (Suc k) (V', s', r')"
    unfolding lif_inv_def using shV' shs' shr' zero' rec' by simp
  with step st show ?thesis by blast
qed

lemma euler_loop_inv:
  assumes b: "length b = length F \<or> length b = 1" and T: "length T = length F \<or> length T = 1" and k: "k < nT"
  shows "\<exists>st. euler_loop x F b T dt [1..<Suc k] (zeros (length F) nT, zeros (length F) nT, zeros (length F) nT) = Inr st \<and>
           lif_inv x F (stretch (length F) b) (stretch (length F) T) dt nT k st"
  using k
proof (induction k)
  case 0
  show ?case using lif_inv_zeros[of x F "stretch (length F) b" "stretch (length F) T" dt nT] by simp
next
  case (Suc k)
  then obtain st where l: "euler_loop x F b T dt [1..<Suc k] (zeros (length F) nT, zeros (length F) nT, zeros (length F) nT) = Inr st"
    and inv: "lif_inv x F (stretch (length F) b) (stretch (length F) T) dt nT k st" by auto
  from lif_inv_step[OF b T inv Suc.prems]
  obtain st' where s: "euler_step x F b T dt (Suc k) st = Inr st'" and inv': "lif_inv x F (stretch (length F) b) (stretch (length F) T) dt nT (Suc k) st'"
    by blast
  have "[1..<Suc (Suc k)] = [1..<Suc k] @ [Suc k]" by simp
  then have "euler_loop x F b T dt [1..<Suc (Suc k)] (zeros (length F) nT, zeros (length F) nT, zeros (length F) nT) = Inr st'"
    using l s by (simp only: euler_loop_append) simp
  with inv' show ?case by blast
qed

lemma run_LIF_network_inv_bc:
  assumes b: "length b = length F \<or> length b = 1" and T: "length T = length F \<or> length T = 1"
  shows "\<exists>V s r. run_LIF_network x F b T dt = Inr (V, s, r) \<and>
           lif_inv x F (stretch (length F) b) (stretch (length F) T) dt (length x) (length x - 1) (V, s, r)"
proof -
  let ?b = "stretch (length F) b" and ?T = "stretch (length F) T"
  have "\<exists>st. run_LIF_network x F b T dt = Inr st \<and> lif_inv x F ?b ?T dt (length x) (length x - 1) st"
  proof (cases "length x")
    case 0
    then show ?thesis
      using lif_inv_zeros[of x F ?b ?T dt 0] by (simp add: run_LIF_network_def Let_def)
  next
    case (Suc n)
    then have "n < length x" by simp
    from euler_loop_inv[OF b T this, of x dt] Suc show ?thesis
      by (simp add: run_LIF_network_def Let_def)
  qed
  then show ?thesis by (metis prod_cases3)
qed

lemma run_LIF_network_inv:
  assumes b: "length b = length F" and T: "length T = length F"
  shows "\<exists>V s r. run_LIF_network x F b T dt = Inr (V, s, r) \<and>
           lif_inv x F b T dt (length x) (length x - 1) (V, s, r)"
  using run_LIF_network_inv_bc[of b F T x dt] assms by simp

text \<open>Biases or thresholds of any other length: the first step raises.\<close>

lemma euler_step_front:
  fixes x :: "'a::{zero,one,plus,times,uminus,ord} list"
  assumes b: "length b = length F \<or> length b = 1"
    and V: "length V = length F" and s: "length s = length F" and r: "length r = length F"
  shows "\<exists>V1 r1. length V1 = length F \<and> length r1 = length F \<and>
           euler_step x F b T dt i (V, s, r) =
             ebind (broadcast2 (\<lambda>v t. t \<le> v) (col V1 i) T) (\<lambda>keep.
             ebind (bool_index [0..<length F] keep) (\<lambda>spiking_neurons.
             Inr (assign_at V1 spiking_neurons i 0, assign_at s spiking_neurons i 1, r1)))"
proof -
  let ?N = "length F"
  let ?b = "stretch ?N b"
  define t1 where "t1 = map2 (+) (map uminus (col V (i - 1))) (map (\<lambda>f. f * x ! (i - 1)) F)"
  define t2 where "t2 = map2 (+) t1 ?b"
  define vnew where "vnew = map2 (+) (col V (i - 1)) (map (\<lambda>v. dt * v) t2)"
  define V1 where "V1 = map2 (\<lambda>row v. row[i := v]) V vnew"
  define t3 where "t3 = map2 (+) (col r (i - 1)) (map (\<lambda>v. dt * v) (map uminus (col r (i - 1))))"
  define rnew where "rnew = map2 (+) t3 (col s (i - 1))"
  define r1 where "r1 = map2 (\<lambda>row v. row[i := v]) r rnew"
  have lb: "length ?b = ?N" using length_stretch[OF b] by simp
  have lt1: "length t1 = ?N" using V by (simp add: col_def t1_def)
  have lt2: "length t2 = ?N" using lt1 lb by (simp add: t2_def)
  have lvnew: "length vnew = ?N" using V lt2 by (simp add: col_def vnew_def)
  have lt3: "length t3 = ?N" using r by (simp add: col_def t3_def)
  have lrnew: "length rnew = ?N" using lt3 s by (simp add: col_def rnew_def)
  have lV1: "length V1 = ?N" using V lvnew by (simp add: V1_def)
  have e1: "broadcast2 (+) (map uminus (col V (i - 1))) (map (\<lambda>f. f * x ! (i - 1)) F) = Inr t1"
    using V by (simp add: broadcast2_same col_def t1_def)
  have e2: "broadcast2 (+) t1 b = Inr t2"
    unfolding t2_def using broadcast2_stretched[OF lt1 b] .
  have e3: "broadcast2 (+) (col V (i - 1)) (map (\<lambda>v. dt * v) t2) = Inr vnew"
    using V lt2 by (simp add: broadcast2_same col_def vnew_def)
  have e4: "assign_col V i vnew = Inr V1"
    using V lvnew by (simp add: assign_col_same V1_def)
  have e5: "broadcast2 (+) (col r (i - 1)) (map (\<lambda>v. dt * v) (map uminus (col r (i - 1)))) = Inr t3"
    by (simp add: broadcast2_same col_def t3_def)
  have e6: "broadcast2 (+) t3 (col s (i - 1)) = Inr rnew"
    using lt3 s by (simp add: broadcast2_same col_def rnew_def)
  have e7: "assign_col r i rnew = Inr r1"
    using r lrnew by (simp add: assign_col_same r1_def)
  have "euler_step x F b T dt i (V, s, r) =
          ebind (broadcast2 (\<lambda>v t. t \<le> v) (col V1 i) T) (\<lambda>keep.
          ebind (bool_index [0..<length F] keep) (\<lambda>spiking_neurons.
          Inr (assign_at V1 spiking_neurons i 0, assign_at s spiking_neurons i 1, r1)))"
    unfolding euler_step_def prod.case e1 ebind_Inr e2 e3 e4 e5 e6 e7 ..
  moreover have "length r1 = ?N" using r lrnew by (simp add: r1_def)
  ultimately show ?thesis using lV1 by blast
qed

lemma euler_step_bad_threshold:
  fixes x :: "'a::{zero,one,plus,times,uminus,ord} list"
  assumes b: "length b = length F \<or> length b = 1"
    and T: "length T \<noteq> length F" "length T \<noteq> 1" "length F = 1 \<longrightarrow> T \<noteq> []"
    and V: "length V = length F" and s: "length s = length F" and r: "length r = length F"
  shows "euler_step x F b T dt i (V, s, r) = Inl (if length F = 1 then IndexError else ValueError)"
proof -
  from euler_step_front[OF b V s r, of x T dt i]
  obtain V1 r1 where lV1: "length V1 = length F"
    and step: "euler_step x F b T dt i (V, s, r) =
             ebind (broadcast2 (\<lambda>v t. t \<le> v) (col V1 i) T) (\<lambda>keep.
             ebind (bool_index [0..<length F] keep) (\<lambda>spiking_neurons.
             Inr (assign_at V1 spiking_neurons i 0, assign_at s spiking_neurons i 1, r1)))"
    by blast
  have lc: "length (col V1 i) = length F" using lV1 by (simp add: col_def)
  show ?thesis
  proof (cases "length F = 1")
    case True
    then have "broadcast2 (\<lambda>v t. t \<le> v) (col V1 i) T = Inr (map (\<lambda>t. t \<le> hd (col V1 i)) T)"
      using lc T by (simp add: broadcast2_def)
    then show ?thesis using step True T by (simp add: bool_index_def)
  next
    case False
    then have "broadcast2 (\<lambda>v t. t \<le> v) (col V1 i) T = Inl ValueError"
      using lc T by (simp add: broadcast2_def)
    then show ?thesis using step False by simp
  qed
qed

lemma euler_step_bad_bias:
  fixes x :: "'a::{zero,one,plus,times,uminus,ord} list"
  assumes b: "length b \<noteq> length F" "length b \<noteq> 1" and V: "length V = length F"
  shows "euler_step x F b T dt i (V, s, r) = Inl ValueError"
proof -
  define t1 where "t1 = map2 (+) (map uminus (col V (i - 1))) (map (\<lambda>f. f * x ! (i - 1)) F)"
  have lt1: "length t1 = length F" using V by (simp add: col_def t1_def)
  have e1: "broadcast2 (+) (map uminus (col V (i - 1))) (map (\<lambda>f. f * x ! (i - 1)) F) = Inr t1"
    using V by (simp add: broadcast2_same col_def t1_def)
  show ?thesis
  proof (cases "length F = 1")
    case True
    define t2 where "t2 = map ((+) (hd t1)) b"
    define vnew where "vnew = map ((+) (hd (col V (i - 1)))) (map (\<lambda>v. dt * v) t2)"
    have e2: "broadcast2 (+) t1 b = Inr t2"
      using lt1 True b by (simp add: broadcast2_def t2_def)
    have lc: "length (col V (i - 1)) = 1" using V True by (simp add: col_def)
    have e3: "broadcast2 (+) (col V (i - 1)) (map (\<lambda>v. dt * v) t2) = Inr vnew"
      using lc True b by (simp add: broadcast2_def t2_def vnew_def)
    have e4: "assign_col V i vnew = Inl ValueError"
      using V True b by (simp add: assign_col_def vnew_def t2_def)
    show ?thesis unfolding euler_step_def prod.case e1 ebind_Inr e2 e3 e4 by simp
  next
    case False
    have e2: "broadcast2 (+) t1 b = Inl ValueError"
      using lt1 False b by (simp add: broadcast2_def)
    show ?thesis unfolding euler_step_def prod.case e1 ebind_Inr e2 by simp
  qed
qed

lemma length_zeros [simp]: "length (zeros N nT) = N"
  by (simp add: zeros_def)

lemma run_LIF_network_short:
  assumes "length x \<le> 1"
  shows "run_LIF_network x F b T dt =
           Inr (zeros (length F) (length x), zeros (length F) (length x), zeros (length F) (length x))"
  using assms by (simp add: run_LIF_network_def Let_def)

lemma run_LIF_network_bad_bias:
  fixes x :: "'a::{zero,one,plus,times,uminus,ord} list"
  assumes "2 \<le> length x" and "length b \<noteq> length F" and "length b \<noteq> 1"
  shows "run_LIF_network x F b T dt = Inl ValueError"
proof -
  have "[1..<length x] = 1 # [Suc 1..<length x]" using assms(1) by (intro upt_conv_Cons) simp
  then show ?thesis
    using euler_step_bad_bias[OF assms(2,3), of "zeros (length F) (length x)" x T dt 1]
    by (simp add: run_LIF_network_def Let_def)
qed

lemma run_LIF_network_bad_threshold:
  fixes x :: "'a::{zero,one,plus,times,uminus,ord} list"
  assumes "2 \<le> length x" and "length b = length F \<or> length b = 1"
    and "length T \<noteq> length F" and "length T \<noteq> 1" and "length F = 1 \<longrightarrow> T \<noteq> []"
  shows "run_LIF_network x F b T dt = Inl (if length F = 1 then IndexError else ValueError)"
proof -
  have "[1..<length x] = 1 # [Suc 1..<length x]" using assms(1) by (intro upt_conv_Cons) simp
  then show ?thesis
    using euler_step_bad_threshold[OF assms(2,3,4,5), of "zeros (length F) (length x)"
        "zeros (length F) (length x)" "zeros (length F) (length x)" x dt 1]
    by (simp add: run_LIF_network_def Let_def)
qed

lemma run_example:
  "run_LIF_network [5, 5, 5, 5] [2 / 5, 3 / 10] [0, 0] [1, 1] (1 / 2 :: real) =
     Inr ([[0, 0, 0, 0], [0, 3 / 4, 0, 3 / 4]], [[0, 1, 1, 1], [0, 0, 1, 0]],
          [[0, 0, 1, 3 / 2], [0, 0, 0, 1]])"
  by code_simp

text \<open>
  Claim C2. At every step \<open>i\<close> in \<open>1..nT-1\<close> and for every neuron \<open>j\<close>, a spike is recorded
  (\<open>s[j,i] = 1\<close>) if and only if the pre-reset voltage of step \<open>i\<close> reaches the threshold
  (\<open>T[j] \<le>\<close> it, so a value equal to the threshold spikes). The stored voltage of a spiking
  neuron is 0; that of a neuron that does not spike is the pre-reset value, and its spike
  entry is 0.
\<close>

theorem spike_iff_threshold_reached:
  fixes x :: "'a::{zero_neq_one,plus,times,uminus,ord} list"
  assumes "length b = length F" and "length T = length F"
  shows "\<exists>V s r. run_LIF_network x F b T dt = Inr (V, s, r) \<and>
           (\<forall>i j. 1 \<le> i \<and> i < length x \<and> j < length F \<longrightarrow>
              (s ! j ! i = 1 \<longleftrightarrow> T ! j \<le> pre_reset x F b dt V j i) \<and>
              (T ! j \<le> pre_reset x F b dt V j i \<longrightarrow> V ! j ! i = 0) \<and>
              (\<not> T ! j \<le> pre_reset x F b dt V j i \<longrightarrow> V ! j ! i = pre_reset x F b dt V j i \<and> s ! j ! i = 0))"
proof -
  from run_LIF_network_inv[OF assms, of x dt]
  obtain V s r where run: "run_LIF_network x F b T dt = Inr (V, s, r)"
    and inv: "lif_inv x F b T dt (length x) (length x - 1) (V, s, r)"
    by blast
  have "(s ! j ! i = 1 \<longleftrightarrow> T ! j \<le> pre_reset x F b dt V j i) \<and>
        (T ! j \<le> pre_reset x F b dt V j i \<longrightarrow> V ! j ! i = 0) \<and>
        (\<not> T ! j \<le> pre_reset x F b dt V j i \<longrightarrow> V ! j ! i = pre_reset x F b dt V j i \<and> s ! j ! i = 0)"
    if "1 \<le> i" "i < length x" "j < length F" for i j
  proof -
    have "i \<le> length x - 1" using that by simp
    from lif_inv_rec[OF inv that(3,1) this] show ?thesis by simp
  qed
  with run show ?thesis by blast
qed

theorem spike_iff_threshold_reached_witness:
  "length [0, 0 :: real] = length [2 / 5, 3 / 10 :: real] \<and> length [1, 1 :: real] = length [2 / 5, 3 / 10 :: real] \<and>
   (\<exists>V s r. run_LIF_network [5, 5, 5, 5] [2 / 5, 3 / 10] [0, 0] [1, 1] (1 / 2 :: real) = Inr (V, s, r) \<and>
      V = [[0, 0, 0, 0], [0, 3 / 4, 0, 3 / 4]] \<and> s = [[0, 1, 1, 1], [0, 0, 1, 0]] \<and>
      pre_reset [5, 5, 5, 5] [2 / 5, 3 / 10] [0, 0] (1 / 2) V 1 1 = 3 / 4 \<and> s ! 1 ! 1 = 0 \<and> V ! 1 ! 1 = 3 / 4 \<and>
      pre_reset [5, 5, 5, 5] [2 / 5, 3 / 10] [0, 0] (1 / 2) V 1 2 = 9 / 8 \<and> s ! 1 ! 2 = 1 \<and> V ! 1 ! 2 = 0)"
  using spike_iff_threshold_reached[of "[0, 0 :: real]" "[2 / 5, 3 / 10]" "[1, 1]" "[5, 5, 5, 5]" "1 / 2"]
  by (simp add: run_example pre_reset_def)

text \<open>
  Claim C3. At every step \<open>i\<close> in \<open>1..nT-1\<close> and for every neuron,
  \<open>r[i] = r[i-1] + dt * (- r[i-1]) + s[i-1]\<close>: the spike enters as a unit impulse, not
  scaled by \<open>dt\<close>.
\<close>

theorem filtered_rate_recurrence:
  fixes x :: "'a::{zero,one,plus,times,uminus,ord} list"
  assumes "length b = length F" and "length T = length F"
  shows "\<exists>V s r. run_LIF_network x F b T dt = Inr (V, s, r) \<and>
           (\<forall>i j. 1 \<le> i \<and> i < length x \<and> j < length F \<longrightarrow>
              r ! j ! i = r ! j ! (i - 1) + dt * (- (r ! j ! (i - 1))) + s ! j ! (i - 1))"
proof -
  from run_LIF_network_inv[OF assms, of x dt]
  obtain V s r where run: "run_LIF_network x F b T dt = Inr (V, s, r)"
    and inv: "lif_inv x F b T dt (length x) (length x - 1) (V, s, r)"
    by blast
  have "r ! j ! i = r ! j ! (i - 1) + dt * (- (r ! j ! (i - 1))) + s ! j ! (i - 1)"
    if "1 \<le> i" "i < length x" "j < length F" for i j
  proof -
    have "i \<le> length x - 1" using that by simp
    from lif_inv_rec[OF inv that(3,1) this] show ?thesis by simp
  qed
  with run show ?thesis by blast
qed

theorem filtered_rate_recurrence_witness:
  "length [0, 0 :: real] = length [2 / 5, 3 / 10 :: real] \<and> length [1, 1 :: real] = length [2 / 5, 3 / 10 :: real] \<and>
   (\<exists>V s r. run_LIF_network [5, 5, 5, 5] [2 / 5, 3 / 10] [0, 0] [1, 1] (1 / 2 :: real) = Inr (V, s, r) \<and>
      s = [[0, 1, 1, 1], [0, 0, 1, 0]] \<and> r = [[0, 0, 1, 3 / 2], [0, 0, 0, 1]] \<and>
      r ! 0 ! 3 = r ! 0 ! 2 + 1 / 2 * (- (r ! 0 ! 2)) + s ! 0 ! 2)"
  using filtered_rate_recurrence[of "[0, 0 :: real]" "[2 / 5, 3 / 10]" "[1, 1]" "[5, 5, 5, 5]" "1 / 2"]
  by (simp add: run_example)

text \<open>
  Claim C4 says that the stored voltage of every neuron at every step is
  \<open>V[i-1] + dt * (- V[i-1] + F * x[i-1] + b)\<close>. It is not for a neuron that spikes at step
  \<open>i\<close>: the value is reset to 0 before it is kept. Neuron 1 below has the stored voltage
  \<open>3/4\<close> at step 1, the update gives \<open>9/8\<close> at step 2, which reaches the threshold 1, and
  the stored voltage at step 2 is 0.
\<close>

theorem stored_voltage_is_update_counterexample:
  "run_LIF_network [5, 5, 5, 5] [2 / 5, 3 / 10] [0, 0] [1, 1] (1 / 2 :: real) =
     Inr ([[0, 0, 0, 0], [0, 3 / 4, 0, 3 / 4]], [[0, 1, 1, 1], [0, 0, 1, 0]], [[0, 0, 1, 3 / 2], [0, 0, 0, 1]]) \<and>
   [[0, 0, 0, 0], [0, 3 / 4, 0, 3 / 4 :: real]] ! 1 ! 2 \<noteq>
     [[0, 0, 0, 0], [0, 3 / 4, 0, 3 / 4]] ! 1 ! (2 - 1)
       + 1 / 2 * (- ([[0, 0, 0, 0], [0, 3 / 4, 0, 3 / 4]] ! 1 ! (2 - 1)) + [2 / 5, 3 / 10] ! 1 * [5, 5, 5, 5] ! (2 - 1) + [0, 0] ! 1)"
  by (simp add: run_example)

text \<open>
  Claim C4, amended. At every step \<open>i\<close> in \<open>1..nT-1\<close> and for every neuron \<open>j\<close>, with
  \<open>V[i-1]\<close> the stored (post-reset) voltage of the step before: the stored voltage \<open>V[j,i]\<close>
  is \<open>V[j,i-1] + dt * (- V[j,i-1] + F[j] * x[i-1] + b[j])\<close> when that value is below the
  threshold \<open>T[j]\<close>, and 0 when it reaches the threshold.
\<close>

theorem stored_voltage_update:
  fixes x :: "'a::{zero,one,plus,times,uminus,ord} list"
  assumes "length b = length F" and "length T = length F"
  shows "\<exists>V s r. run_LIF_network x F b T dt = Inr (V, s, r) \<and>
           (\<forall>i j. 1 \<le> i \<and> i < length x \<and> j < length F \<longrightarrow>
              V ! j ! i =
                (if T ! j \<le> V ! j ! (i - 1) + dt * (- (V ! j ! (i - 1)) + F ! j * x ! (i - 1) + b ! j) then 0
                 else V ! j ! (i - 1) + dt * (- (V ! j ! (i - 1)) + F ! j * x ! (i - 1) + b ! j)))"
proof -
  from run_LIF_network_inv[OF assms, of x dt]
  obtain V s r where run: "run_LIF_network x F b T dt = Inr (V, s, r)"
    and inv: "lif_inv x F b T dt (length x) (length x - 1) (V, s, r)"
    by blast
  have "V ! j ! i =
          (if T ! j \<le> V ! j ! (i - 1) + dt * (- (V ! j ! (i - 1)) + F ! j * x ! (i - 1) + b ! j) then 0
           else V ! j ! (i - 1) + dt * (- (V ! j ! (i - 1)) + F ! j * x ! (i - 1) + b ! j))"
    if "1 \<le> i" "i < length x" "j < length F" for i j
  proof -
    have "i \<le> length x - 1" using that by simp
    from lif_inv_rec[OF inv that(3,1) this] show ?thesis by (simp add: pre_reset_def)
  qed
  with run show ?thesis by blast
qed

theorem stored_voltage_update_witness:
  "length [0, 0 :: real] = length [2 / 5, 3 / 10 :: real] \<and> length [1, 1 :: real] = length [2 / 5, 3 / 10 :: real] \<and>
   (\<exists>V s r. run_LIF_network [5, 5, 5, 5] [2 / 5, 3 / 10] [0, 0] [1, 1] (1 / 2 :: real) = Inr (V, s, r) \<and>
      V = [[0, 0, 0, 0], [0, 3 / 4, 0, 3 / 4]] \<and>
      V ! 1 ! 1 = V ! 1 ! 0 + 1 / 2 * (- (V ! 1 ! 0) + 3 / 10 * 5 + 0) \<and> V ! 1 ! 2 = 0 \<and>
      1 \<le> V ! 1 ! 1 + 1 / 2 * (- (V ! 1 ! 1) + 3 / 10 * 5 + 0))"
  using stored_voltage_update[of "[0, 0 :: real]" "[2 / 5, 3 / 10]" "[1, 1]" "[5, 5, 5, 5]" "1 / 2"]
  by (simp add: run_example)

text \<open>
  Claim C5. For a population of \<open>N \<ge> 1\<close> neurons (\<open>F\<close>, \<open>b\<close>, \<open>T\<close> of length \<open>N\<close>) and an input
  of length \<open>nT\<close>, the simulator returns three arrays of shape \<open>(N, nT)\<close>, and the first time
  column of each of them is zero.
\<close>

theorem output_shapes_first_column_zero:
  fixes x :: "'a::{zero,one,plus,times,uminus,ord} list"
  assumes "1 \<le> length F" and "length b = length F" and "length T = length F"
  shows "\<exists>V s r. run_LIF_network x F b T dt = Inr (V, s, r) \<and>
           shape_ok (length F) (length x) V \<and> shape_ok (length F) (length x) s \<and>
           shape_ok (length F) (length x) r \<and>
           (0 < length x \<longrightarrow>
              col V 0 = replicate (length F) 0 \<and> col s 0 = replicate (length F) 0 \<and>
              col r 0 = replicate (length F) 0)"
proof -
  from run_LIF_network_inv[OF assms(2,3), of x dt]
  obtain V s r where run: "run_LIF_network x F b T dt = Inr (V, s, r)"
    and inv: "lif_inv x F b T dt (length x) (length x - 1) (V, s, r)"
    by blast
  note sh = lif_inv_shape[OF inv]
  have z: "V ! j ! 0 = 0 \<and> s ! j ! 0 = 0 \<and> r ! j ! 0 = 0" if "0 < length x" "j < length F" for j
    using lif_inv_zero[OF inv that(2,1)] by simp
  have "col V 0 = replicate (length F) 0 \<and> col s 0 = replicate (length F) 0 \<and>
        col r 0 = replicate (length F) 0" if "0 < length x"
    using z[OF that] shape_okD(1)[OF sh(1)] shape_okD(1)[OF sh(2)] shape_okD(1)[OF sh(3)]
    by (simp add: col_def list_eq_iff_nth_eq)
  with run sh show ?thesis by blast
qed

theorem output_shapes_first_column_zero_witness:
  "1 \<le> length [2 / 5, 3 / 10 :: real] \<and>
   length [0, 0 :: real] = length [2 / 5, 3 / 10 :: real] \<and> length [1, 1 :: real] = length [2 / 5, 3 / 10 :: real] \<and>
   (\<exists>V s r. run_LIF_network [5, 5, 5, 5] [2 / 5, 3 / 10] [0, 0] [1, 1] (1 / 2 :: real) = Inr (V, s, r) \<and>
      V = [[0, 0, 0, 0], [0, 3 / 4, 0, 3 / 4]] \<and> s = [[0, 1, 1, 1], [0, 0, 1, 0]] \<and>
      r = [[0, 0, 1, 3 / 2], [0, 0, 0, 1]] \<and>
      shape_ok 2 4 V \<and> shape_ok 2 4 s \<and> shape_ok 2 4 r \<and>
      col V 0 = [0, 0] \<and> col s 0 = [0, 0] \<and> col r 0 = [0, 0])"
  using output_shapes_first_column_zero[of "[2 / 5, 3 / 10 :: real]" "[0, 0]" "[1, 1]" "[5, 5, 5, 5]" "1 / 2"]
  by (simp add: run_example shape_ok_def col_def)

lemma euler_step_cong:
  assumes "x' ! (i - 1) = x ! (i - 1)"
  shows "euler_step x' F b T dt i st = euler_step x F b T dt i st"
  unfolding euler_step_def assms ..

lemma euler_loop_cong:
  assumes "\<forall>i \<in> set is. x' ! (i - 1) = x ! (i - 1)"
  shows "euler_loop x' F b T dt is st = euler_loop x F b T dt is st"
  using assms
proof (induction "is" arbitrary: st)
  case Nil
  show ?case by simp
next
  case (Cons i "is")
  have "euler_step x' F b T dt i st = euler_step x F b T dt i st"
    using Cons.prems by (intro euler_step_cong) simp
  moreover have "euler_loop x' F b T dt is = euler_loop x F b T dt is"
    using Cons by auto
  ultimately show ?case by simp
qed

text \<open>
  Claim C9. The last element of the input never influences the result: two inputs of the
  same length that agree on the indices \<open>0..nT-2\<close> give the same result (the same three
  arrays, or the same error), all other arguments being equal.
\<close>

theorem last_input_unused:
  fixes x :: "'a::{zero,one,plus,times,uminus,ord} list"
  assumes len: "length x' = length x" and agree: "butlast x' = butlast x"
  shows "run_LIF_network x' F b T dt = run_LIF_network x F b T dt"
proof -
  have "x' ! (i - 1) = x ! (i - 1)" if "i \<in> set [1..<length x]" for i
  proof -
    have "i - 1 < length (butlast x)" using that by auto
    then have "butlast x' ! (i - 1) = x' ! (i - 1)" "butlast x ! (i - 1) = x ! (i - 1)"
      using len by (simp_all add: nth_butlast)
    with agree show ?thesis by simp
  qed
  then have "euler_loop x' F b T dt [1..<length x] st = euler_loop x F b T dt [1..<length x] st" for st
    using euler_loop_cong[of "[1..<length x]" x' x] by blast
  then show ?thesis using len by (simp add: run_LIF_network_def)
qed

lemma run_example_last:
  "run_LIF_network [5, 5, 5, 9] [2 / 5, 3 / 10] [0, 0] [1, 1] (1 / 2 :: real) =
     Inr ([[0, 0, 0, 0], [0, 3 / 4, 0, 3 / 4]], [[0, 1, 1, 1], [0, 0, 1, 0]],
          [[0, 0, 1, 3 / 2], [0, 0, 0, 1]])"
  by code_simp

theorem last_input_unused_witness:
  "length [5, 5, 5, 9 :: real] = length [5, 5, 5, 5 :: real] \<and>
   butlast [5, 5, 5, 9 :: real] = butlast [5, 5, 5, 5] \<and>
   run_LIF_network [5, 5, 5, 9] [2 / 5, 3 / 10] [0, 0] [1, 1] (1 / 2 :: real) =
     run_LIF_network [5, 5, 5, 5] [2 / 5, 3 / 10] [0, 0] [1, 1] (1 / 2) \<and>
   run_LIF_network [5, 5, 5, 9] [2 / 5, 3 / 10] [0, 0] [1, 1] (1 / 2 :: real) =
     Inr ([[0, 0, 0, 0], [0, 3 / 4, 0, 3 / 4]], [[0, 1, 1, 1], [0, 0, 1, 0]],
          [[0, 0, 1, 3 / 2], [0, 0, 0, 1]])"
  using last_input_unused[of "[5, 5, 5, 9 :: real]" "[5, 5, 5, 5]" "[2 / 5, 3 / 10]" "[0, 0]" "[1, 1]" "1 / 2"]
  by (simp add: run_example_last)

text \<open>A single neuron with an empty threshold array: the mask is empty and no neuron ever spikes.\<close>

lemma euler_step_no_threshold:
  fixes x :: "'a::{zero,one,plus,times,uminus,ord} list"
  assumes b: "length b = length F \<or> length b = 1" and F: "length F = 1"
    and V: "length V = length F" and s: "length s = length F" and r: "length r = length F"
  shows "\<exists>V1 r1. length V1 = length F \<and> length r1 = length F \<and>
           euler_step x F b [] dt i (V, s, r) = Inr (V1, s, r1)"
proof -
  from euler_step_front[OF b V s r, of x "[]" dt i]
  obtain V1 r1 where l: "length V1 = length F" "length r1 = length F"
    and step: "euler_step x F b [] dt i (V, s, r) =
             ebind (broadcast2 (\<lambda>v t. t \<le> v) (col V1 i) []) (\<lambda>keep.
             ebind (bool_index [0..<length F] keep) (\<lambda>spiking_neurons.
             Inr (assign_at V1 spiking_neurons i 0, assign_at s spiking_neurons i 1, r1)))"
    by blast
  have "length (col V1 i) = 1" using l F by (simp add: col_def)
  then have "broadcast2 (\<lambda>v t. t \<le> v) (col V1 i) [] = Inr []" by (simp add: broadcast2_def)
  then have "euler_step x F b [] dt i (V, s, r) = Inr (V1, s, r1)"
    using step F by (simp add: bool_index_def assign_at_def)
  then show ?thesis using l by blast
qed

lemma euler_loop_no_threshold:
  fixes x :: "'a::{zero,one,plus,times,uminus,ord} list"
  assumes b: "length b = length F \<or> length b = 1" and F: "length F = 1"
  shows "length V = length F \<Longrightarrow> length s = length F \<Longrightarrow> length r = length F \<Longrightarrow>
           \<exists>out. euler_loop x F b [] dt is (V, s, r) = Inr out"
proof (induction "is" arbitrary: V r)
  case Nil
  then show ?case by simp
next
  case (Cons i "is")
  from euler_step_no_threshold[OF b F Cons.prems, of x dt i]
  obtain V1 r1 where "length V1 = length F" "length r1 = length F"
    "euler_step x F b [] dt i (V, s, r) = Inr (V1, s, r1)" by blast
  then show ?case using Cons.IH[of V1 r1] Cons.prems(2) by simp
qed

lemma run_LIF_network_no_threshold:
  fixes x :: "'a::{zero,one,plus,times,uminus,ord} list"
  assumes "length b = length F \<or> length b = 1" and "length F = 1"
  shows "\<exists>out. run_LIF_network x F b [] dt = Inr out"
  using euler_loop_no_threshold[OF assms, of "zeros (length F) (length x)" "zeros (length F) (length x)"
      "zeros (length F) (length x)" x dt "[1..<length x]"]
  by (simp add: run_LIF_network_def Let_def)

section \<open>Rounding\<close>

text \<open>
  What the theorems on floats need of rounding: it is monotone and odd, it leaves the doubles
  as they are, and its error is at most half a unit in the last place.
\<close>

lemma rhe_near: "\<bar>of_int (rhe y) - y\<bar> \<le> 1 / 2"
proof -
  have "of_int \<lfloor>y\<rfloor> \<le> y" "y < of_int \<lfloor>y\<rfloor> + 1" by linarith+
  then show ?thesis by (auto simp: rhe_def Let_def)
qed

lemma rhe_int [simp]: "rhe (of_int n) = n"
  by (simp add: rhe_def)

lemma rhe_0 [simp]: "rhe 0 = 0"
  by (simp add: rhe_def)

lemma rhe_mono:
  assumes "x \<le> y"
  shows "rhe x \<le> rhe y"
proof (rule ccontr)
  assume "\<not> rhe x \<le> rhe y"
  then have "rhe y + 1 \<le> rhe x" by simp
  then have "(of_int (rhe y) :: real) + 1 \<le> of_int (rhe x)" by linarith
  moreover have "of_int (rhe x) - x \<le> 1 / 2" "y - of_int (rhe y) \<le> 1 / 2"
    using rhe_near[of x] rhe_near[of y] by linarith+
  ultimately have "x = y" using assms by linarith
  with \<open>\<not> rhe x \<le> rhe y\<close> show False by simp
qed

lemma log2_bounds:
  assumes "0 < x"
  shows "2 powr of_int \<lfloor>log 2 x\<rfloor> \<le> x" and "x < 2 powr (of_int \<lfloor>log 2 x\<rfloor> + 1)"
proof -
  have "of_int \<lfloor>log 2 x\<rfloor> \<le> log 2 x" by simp
  then have "2 powr of_int \<lfloor>log 2 x\<rfloor> \<le> 2 powr log 2 x" by (simp only: powr_le_cancel_iff) 
  then show "2 powr of_int \<lfloor>log 2 x\<rfloor> \<le> x" using assms by simp
  have "log 2 x < of_int \<lfloor>log 2 x\<rfloor> + 1" by linarith
  then have "2 powr log 2 x < 2 powr (of_int \<lfloor>log 2 x\<rfloor> + 1)" by (simp only: powr_less_cancel_iff)
  then show "x < 2 powr (of_int \<lfloor>log 2 x\<rfloor> + 1)" using assms by simp
qed

text \<open>The exponent and the unit of a positive real, and its rounding in terms of them.\<close>

lemma rpos_unfold:
  fixes x :: real
  assumes "0 < x"
  defines "e \<equiv> max \<lfloor>log 2 x\<rfloor> (- 1022)"
  defines "u \<equiv> 2 powr (of_int e - 52)"
  shows "rpos x = u * of_int (rhe (x / u))" and "0 < u" and "2 powr of_int e = u * 2 ^ 52"
    and "2 powr (of_int e + 1) = u * 2 ^ 53" and "x < u * 2 ^ 53" and "0 \<le> rhe (x / u)"
    and "rhe (x / u) \<le> 2 ^ 53" and "- 1022 \<le> \<lfloor>log 2 x\<rfloor> \<Longrightarrow> u * 2 ^ 52 \<le> x"
    and "- 1022 \<le> \<lfloor>log 2 x\<rfloor> \<Longrightarrow> 2 ^ 52 \<le> rhe (x / u)"
proof -
  show r: "rpos x = u * of_int (rhe (x / u))" by (simp add: rpos_def Let_def u_def e_def)
  show u: "0 < u" by (simp add: u_def)
  show lo: "2 powr of_int e = u * 2 ^ 52" unfolding u_def by (simp add: powr_diff)
  show hi: "2 powr (of_int e + 1) = u * 2 ^ 53" unfolding u_def by (simp add: powr_diff powr_add)
  have "(of_int \<lfloor>log 2 x\<rfloor> :: real) + 1 \<le> of_int e + 1" by (simp add: e_def)
  then have "(2 :: real) powr (of_int \<lfloor>log 2 x\<rfloor> + 1) \<le> 2 powr (of_int e + 1)"
    by (simp only: powr_le_cancel_iff)
  then show x: "x < u * 2 ^ 53" using log2_bounds(2)[OF assms(1)] hi by linarith
  have "0 \<le> x / u" using assms(1) u by simp
  then have "rhe 0 \<le> rhe (x / u)" by (rule rhe_mono)
  then show "0 \<le> rhe (x / u)" by (simp only: rhe_0)
  have "x / u \<le> 2 ^ 53" using x u by (simp add: field_simps)
  then have "rhe (x / u) \<le> rhe (of_int (2 ^ 53))" by (intro rhe_mono) simp
  then show "rhe (x / u) \<le> 2 ^ 53" unfolding rhe_int by simp
  {
    assume "- 1022 \<le> \<lfloor>log 2 x\<rfloor>"
    then have "e = \<lfloor>log 2 x\<rfloor>" by (simp add: e_def)
    then show lx: "u * 2 ^ 52 \<le> x" using log2_bounds(1)[OF assms(1)] lo by simp
    then have "2 ^ 52 \<le> x / u" using u by (simp add: field_simps)
    then have "rhe (of_int (2 ^ 52)) \<le> rhe (x / u)" by (intro rhe_mono) simp
    then show "2 ^ 52 \<le> rhe (x / u)" unfolding rhe_int by simp
  }
qed

lemma rpos_nonneg: "0 < x \<Longrightarrow> 0 \<le> rpos x"
  using rpos_unfold(1,2,6)[of x] by simp

lemma rpos_mono:
  assumes "0 < x" and "x \<le> y"
  shows "rpos x \<le> rpos y"
proof -
  have y: "0 < y" using assms by simp
  define ex where "ex = max \<lfloor>log 2 x\<rfloor> (- 1022)"
  define ey where "ey = max \<lfloor>log 2 y\<rfloor> (- 1022)"
  define ux :: real where "ux = 2 powr (of_int ex - 52)"
  define uy :: real where "uy = 2 powr (of_int ey - 52)"
  note X = rpos_unfold[OF assms(1), folded ex_def, folded ux_def]
  note Y = rpos_unfold[OF y, folded ey_def, folded uy_def]
  have fl: "\<lfloor>log 2 x\<rfloor> \<le> \<lfloor>log 2 y\<rfloor>" using assms by (intro floor_mono) simp
  then have le: "ex \<le> ey" by (simp add: ex_def ey_def)
  show ?thesis
  proof (cases "ex = ey")
    case True
    then have "ux = uy" by (simp add: ux_def uy_def)
    moreover have "x / uy \<le> y / uy" using assms Y(2) by (simp add: divide_right_mono)
    then have "rhe (x / uy) \<le> rhe (y / uy)" by (rule rhe_mono)
    then have "uy * of_int (rhe (x / uy)) \<le> uy * of_int (rhe (y / uy))" using Y(2) by simp
    ultimately show ?thesis using X(1) Y(1) by simp
  next
    case False
    with le have lt: "ex + 1 \<le> ey" by simp
    then have "- 1022 \<le> \<lfloor>log 2 y\<rfloor>" unfolding ex_def ey_def by linarith
    from Y(9)[OF this] have "(of_int (2 ^ 52) :: real) \<le> of_int (rhe (y / uy))"
      by (simp only: of_int_le_iff)
    then have "uy * 2 ^ 52 \<le> uy * of_int (rhe (y / uy))" using Y(2) by simp
    then have lo: "2 powr of_int ey \<le> rpos y" using Y(1,3) by simp
    have "(of_int (rhe (x / ux)) :: real) \<le> of_int (2 ^ 53)" using X(7) by (simp only: of_int_le_iff)
    then have "ux * of_int (rhe (x / ux)) \<le> ux * 2 ^ 53" using X(2) by simp
    then have hi: "rpos x \<le> 2 powr (of_int ex + 1)" using X(1,4) by simp
    have "(of_int ex :: real) + 1 \<le> of_int ey" using lt by linarith
    then have "(2 :: real) powr (of_int ex + 1) \<le> 2 powr of_int ey"
      by (simp only: powr_le_cancel_iff)
    then show ?thesis using lo hi by linarith
  qed
qed

lemma rnd_0 [simp]: "rnd 0 = 0"
  by (simp add: rnd_def)

lemma rnd_minus [simp]: "rnd (- x) = - rnd x"
  by (simp add: rnd_def)

lemma rnd_nonneg: "0 \<le> x \<Longrightarrow> 0 \<le> rnd x"
  by (simp add: rnd_def rpos_nonneg)

lemma rnd_nonpos: "x \<le> 0 \<Longrightarrow> rnd x \<le> 0"
  using rnd_nonneg[of "- x"] by simp

lemma rnd_mono:
  assumes "x \<le> y"
  shows "rnd x \<le> rnd y"
proof -
  consider "0 < x" | "x \<le> 0" "0 \<le> y" | "x < 0" "y < 0" using assms by linarith
  then show ?thesis
  proof cases
    case 1
    then show ?thesis using assms rpos_mono[of x y] by (simp add: rnd_def)
  next
    case 2
    then show ?thesis using rnd_nonpos[of x] rnd_nonneg[of y] by linarith
  next
    case 3
    then show ?thesis using assms rpos_mono[of "- y" "- x"] by (simp add: rnd_def)
  qed
qed

lemma rpos_dyadic:
  assumes m: "0 < m" "m < 2 ^ 53" and k: "- 1074 \<le> k"
  shows "rpos (of_int m * 2 powr of_int k) = of_int m * 2 powr of_int k"
proof -
  define x :: real where "x = of_int m * 2 powr of_int k"
  define e where "e = max \<lfloor>log 2 x\<rfloor> (- 1022)"
  have x: "0 < x" using m by (simp add: x_def)
  have "(of_int m :: real) < of_int (2 ^ 53)" using m by (simp only: of_int_less_iff)
  then have "x < 2 ^ 53 * 2 powr of_int k" by (simp add: x_def)
  also have "\<dots> = 2 powr (of_int k + 53)" by (simp add: powr_add)
  finally have "(2 :: real) powr of_int \<lfloor>log 2 x\<rfloor> < 2 powr (of_int k + 53)"
    using log2_bounds(1)[OF x] by linarith
  then have "(of_int \<lfloor>log 2 x\<rfloor> :: real) < of_int k + 53" by (simp only: powr_less_cancel_iff)
  then have "\<lfloor>log 2 x\<rfloor> < k + 53" by linarith
  then have ek: "e < k + 53" using k by (simp add: e_def)
  define j where "j = nat (k + 52 - e)"
  have j: "(of_int k :: real) = (of_int e - 52) + real j"
    using ek by (simp add: j_def)
  have "(2 :: real) powr of_int k = 2 powr (of_int e - 52) * 2 powr real j"
    unfolding j by (simp only: powr_add)
  also have "(2 :: real) powr real j = 2 ^ j"
    by (simp add: powr_realpow)
  finally have "(2 :: real) powr of_int k = 2 powr (of_int e - 52) * 2 ^ j" .
  then have xu: "x = 2 powr (of_int e - 52) * of_int (m * 2 ^ j)"
    by (simp add: x_def)
  then have "x / 2 powr (of_int e - 52) = of_int (m * 2 ^ j)"
    by simp
  then have "rpos x = 2 powr (of_int e - 52) * of_int (m * 2 ^ j)"
    unfolding rpos_def e_def[symmetric] Let_def by (simp only: rhe_int)
  then have "rpos x = x" by (simp only: xu[symmetric])
  then show ?thesis by (simp only: x_def)
qed

lemma rnd_dyadic:
  assumes "\<bar>m\<bar> < 2 ^ 53" and "- 1074 \<le> k"
  shows "rnd (of_int m * 2 powr of_int k) = of_int m * 2 powr of_int k"
proof -
  consider "m = 0" | "0 < m" | "m < 0" by linarith
  then show ?thesis
  proof cases
    case 1
    then show ?thesis by simp
  next
    case 2
    then show ?thesis using assms rpos_dyadic[of m k] by (simp add: rnd_def)
  next
    case 3
    then have "rpos (of_int (- m) * 2 powr of_int k) = of_int (- m) * 2 powr of_int k"
      using assms by (intro rpos_dyadic) simp_all
    moreover have "of_int m * 2 powr of_int k < (0 :: real)"
      using 3 by (simp add: mult_less_0_iff)
    ultimately show ?thesis by (simp add: rnd_def)
  qed
qed

lemma rnd_of_int: "\<bar>m\<bar> < 2 ^ 53 \<Longrightarrow> rnd (of_int m) = of_int m"
  using rnd_dyadic[of m 0] by simp

lemma rnd_1 [simp]: "rnd 1 = 1"
  using rnd_of_int[of 1] by simp

lemma rnd_numeral: "numeral k < (2 :: int) ^ 53 \<Longrightarrow> rnd (numeral k) = numeral k"
  using rnd_of_int[of "numeral k"] by simp

lemma rpos_idem:
  assumes "0 < x"
  shows "rnd (rpos x) = rpos x"
proof -
  define e where "e = max \<lfloor>log 2 x\<rfloor> (- 1022)"
  define u :: real where "u = 2 powr (of_int e - 52)"
  define n where "n = rhe (x / u)"
  note X = rpos_unfold[OF assms, folded e_def, folded u_def, folded n_def]
  have e: "- 1022 \<le> e" by (simp add: e_def)
  consider "n = 0" | "0 < n" "n < 2 ^ 53" | "n = 2 ^ 53" using X(6,7) by linarith
  then show ?thesis
  proof cases
    case 1
    then show ?thesis using X(1) by simp
  next
    case 2
    have A: "u * of_int n = of_int n * 2 powr of_int (e - 52)" by (simp add: u_def)
    have B: "rnd (of_int n * 2 powr of_int (e - 52)) = of_int n * 2 powr of_int (e - 52)"
      using 2 e by (intro rnd_dyadic) simp_all
    show ?thesis unfolding X(1) A by (rule B)
  next
    case 3
    have A: "u * of_int n = of_int 1 * 2 powr of_int (e + 1)"
      unfolding 3 using X(4) by simp
    have B: "rnd (of_int 1 * 2 powr of_int (e + 1)) = of_int 1 * 2 powr of_int (e + 1)"
      using e by (intro rnd_dyadic) simp_all
    show ?thesis unfolding X(1) A by (rule B)
  qed
qed

lemma rnd_idem [simp]: "rnd (rnd x) = rnd x"
proof -
  consider "x = 0" | "0 < x" | "x < 0" by linarith
  then show ?thesis
  proof cases
    case 1
    then show ?thesis by simp
  next
    case 2
    then show ?thesis using rpos_idem[of x] by (simp add: rnd_def)
  next
    case 3
    then have "rnd (- rpos (- x)) = - rpos (- x)" using rpos_idem[of "- x"] by simp
    then show ?thesis using 3 by (simp add: rnd_def)
  qed
qed

lemma rpos_error:
  assumes "0 < x"
  shows "\<bar>rpos x - x\<bar> \<le> x * 2 powr - 53 + 2 powr - 1075"
proof -
  define e where "e = max \<lfloor>log 2 x\<rfloor> (- 1022)"
  define u :: real where "u = 2 powr (of_int e - 52)"
  note X = rpos_unfold[OF assms, folded e_def, folded u_def]
  have "rpos x - x = u * (of_int (rhe (x / u)) - x / u)"
    using X(1,2) by (simp add: algebra_simps)
  then have "\<bar>rpos x - x\<bar> = u * \<bar>of_int (rhe (x / u)) - x / u\<bar>"
    using X(2) by (simp add: abs_mult)
  also have "\<dots> \<le> u * (1 / 2)"
    using rhe_near[of "x / u"] X(2) by (intro mult_left_mono) simp_all
  finally have near: "\<bar>rpos x - x\<bar> \<le> u / 2" by simp
  have p: "(0 :: real) \<le> 2 powr - 1075" "0 \<le> x * 2 powr - 53" using assms by simp_all
  show ?thesis
  proof (cases "- 1022 \<le> \<lfloor>log 2 x\<rfloor>")
    case True
    have "(2 :: real) powr - 53 = 1 / 2 ^ 53" by (simp add: powr_minus field_simps)
    then have "x * 2 powr - 53 = x / 2 ^ 53" by (simp only: times_divide_eq_right mult_1_right)
    moreover from X(8)[OF True] have "u / 2 \<le> x / 2 ^ 53" by simp
    ultimately have "u / 2 \<le> x * 2 powr - 53" by (simp only:)
    then show ?thesis using near p by linarith
  next
    case False
    then have "e = - 1022" by (simp add: e_def)
    then have "u = 2 powr - 1074" by (simp add: u_def)
    moreover have "(2 :: real) powr - 1075 = 2 powr - 1074 * (1 / 2)"
      using powr_add[of "2 :: real" "- 1074" "- 1"] by (simp add: powr_minus)
    ultimately have "u / 2 = 2 powr - 1075" by (simp only: times_divide_eq_right mult_1_right)
    then show ?thesis using near p by linarith
  qed
qed

lemma rnd_error: "\<bar>rnd x - x\<bar> \<le> \<bar>x\<bar> * 2 powr - 53 + 2 powr - 1075"
proof -
  consider "x = 0" | "0 < x" | "x < 0" by linarith
  then show ?thesis
  proof cases
    case 1
    then show ?thesis by simp
  next
    case 2
    then show ?thesis using rpos_error[of x] by (simp add: rnd_def)
  next
    case 3
    then show ?thesis using rpos_error[of "- x"] by (simp add: rnd_def)
  qed
qed

lemma rnd_fixed_least:
  assumes "rnd a = a" and "0 < a"
  shows "2 powr - 1074 \<le> a"
proof -
  define e where "e = max \<lfloor>log 2 a\<rfloor> (- 1022)"
  define u :: real where "u = 2 powr (of_int e - 52)"
  define n where "n = rhe (a / u)"
  note X = rpos_unfold[OF assms(2), folded e_def, folded u_def, folded n_def]
  have a: "a = u * of_int n" using assms X(1) by (simp add: rnd_def)
  then have "0 < (of_int n :: real)" using assms(2) X(2) by (simp add: zero_less_mult_iff)
  then have "1 \<le> n" by simp
  then have "(1 :: real) \<le> of_int n" by simp
  then have "u * 1 \<le> u * of_int n" using X(2) by (intro mult_left_mono) simp_all
  then have "u \<le> a" using a by simp
  moreover have "(- 1074 :: real) \<le> of_int e - 52" by (simp add: e_def)
  then have "(2 :: real) powr (- 1074) \<le> 2 powr (of_int e - 52)"
    by (simp only: powr_le_cancel_iff)
  ultimately show ?thesis unfolding u_def by linarith
qed

lemma rpos_at:
  assumes "2 powr of_int e \<le> x" and "x < 2 powr (of_int e + 1)" and "- 1022 \<le> e"
  shows "rpos x = 2 powr (of_int e - 52) * of_int (rhe (x / 2 powr (of_int e - 52)))"
proof -
  have x: "0 < x" using assms(1) powr_gt_zero[of 2 "of_int e"] by linarith
  have "2 powr of_int e \<le> 2 powr log 2 x" "2 powr log 2 x < 2 powr (of_int e + 1)"
    using assms x by simp_all
  then have "of_int e \<le> log 2 x" "log 2 x < of_int e + 1"
    by (simp_all only: powr_le_cancel_iff powr_less_cancel_iff one_less_numeral_iff semiring_norm)
  then have "\<lfloor>log 2 x\<rfloor> = e" by linarith
  then show ?thesis using assms(3) by (simp add: rpos_def Let_def)
qed

lemma rnd_above_2_53: "rnd (2 ^ 53 + 1) = 2 ^ 53"
proof -
  have "rpos (2 ^ 53 + 1) = 2 powr (of_int 53 - 52) * of_int (rhe ((2 ^ 53 + 1) / 2 powr (of_int 53 - 52)))"
    by (rule rpos_at) simp_all
  moreover have "(2 ^ 53 + 1) / 2 powr (of_int 53 - 52) = (9007199254740993 / 2 :: real)"
    by simp
  moreover have "rhe (9007199254740993 / 2) = 4503599627370496"
    by (simp add: rhe_def Let_def)
  ultimately show ?thesis by (simp add: rnd_def)
qed

text \<open>
  Two values, as a check of the definition: the double nearest to \<open>0.1\<close>, and the sum of
  the doubles nearest to \<open>0.1\<close> and \<open>0.2\<close>, a tie that goes to the even neighbour
  \<open>0.30000000000000004\<close>.
\<close>

lemma rnd_tenth: "rnd (1 / 10) = 3602879701896397 / 2 ^ 55"
proof -
  have "rpos (1 / 10) = 2 powr (of_int (- 4) - 52) * of_int (rhe ((1 / 10) / 2 powr (of_int (- 4) - 52)))"
    by (rule rpos_at) (simp_all add: powr_minus)
  moreover have "(1 / 10) / 2 powr (of_int (- 4) - 52) = (72057594037927936 / 10 :: real)"
    by (simp add: powr_minus)
  moreover have "rhe (72057594037927936 / 10) = 7205759403792794"
    by (simp add: rhe_def Let_def)
  ultimately show ?thesis by (simp add: rnd_def powr_minus)
qed

lemma rnd_sum_example:
  "rnd (3602879701896397 / 2 ^ 55 + 3602879701896397 / 2 ^ 54) = 5404319552844596 / 2 ^ 54"
proof -
  define x :: real where "x = 10808639105689191 / 2 ^ 55"
  have "rpos x = 2 powr (of_int (- 2) - 52) * of_int (rhe (x / 2 powr (of_int (- 2) - 52)))"
    by (rule rpos_at) (simp_all add: x_def powr_minus)
  moreover have "x / 2 powr (of_int (- 2) - 52) = (10808639105689191 / 2 :: real)"
    by (simp add: x_def powr_minus)
  moreover have "rhe (10808639105689191 / 2) = 5404319552844596"
    by (simp add: rhe_def Let_def)
  ultimately have "rnd x = 5404319552844596 / 2 ^ 54" by (simp add: rnd_def x_def powr_minus)
  then show ?thesis by (simp add: x_def)
qed

lemma rhe_small:
  assumes "0 \<le> z" and "z < 1 / 2"
  shows "rhe z = 0"
proof -
  have "\<lfloor>z\<rfloor> = 0" using assms by (simp add: floor_eq_iff)
  then show ?thesis using assms by (simp add: rhe_def)
qed

lemma rnd_underflow:
  assumes "\<bar>x\<bar> < 2 powr - 1075"
  shows "rnd x = 0"
proof -
  have tiny: "rpos y = 0" if y: "0 < y" "y < 2 powr - 1075" for y :: real
  proof -
    have "2 powr log 2 y < 2 powr - 1075" using y by simp
    then have "log 2 y < - 1075" by (simp only: powr_less_cancel_iff)
    then have "\<lfloor>log 2 y\<rfloor> < - 1022" by linarith
    then have e: "max \<lfloor>log 2 y\<rfloor> (- 1022) = - 1022" by simp
    have "(2 :: real) powr - 1075 = 2 powr - 1074 * (1 / 2)"
      using powr_add[of "2 :: real" "- 1074" "- 1"] by (simp add: powr_minus)
    then have "y / 2 powr - 1074 < 1 / 2" using y(2) by (simp add: field_simps)
    moreover have "0 \<le> y / 2 powr - 1074" using y(1) by simp
    ultimately have "rhe (y / 2 powr - 1074) = 0" by (intro rhe_small)
    then show ?thesis unfolding rpos_def e Let_def by simp
  qed
  show ?thesis using tiny[of x] tiny[of "- x"] assms by (simp add: rnd_def)
qed

section \<open>Operations on floats\<close>

lemma fl_simps [simp]:
  "fl_val (Fin a) = a" "fl_val NZero = 0" "fl_val PInf = 0" "fl_val NInf = 0" "fl_val NaN = 0"
  "fl_neg (Fin a) \<longleftrightarrow> a < 0" "fl_neg NZero" "fl_neg NInf" "\<not> fl_neg PInf" "\<not> fl_neg NaN"
  "is_fin (Fin a)" "is_fin NZero" "\<not> is_fin PInf" "\<not> is_fin NInf" "\<not> is_fin NaN"
  "\<not> is_inf (Fin a)" "\<not> is_inf NZero" "is_inf PInf" "is_inf NInf" "\<not> is_inf NaN"
  "fl_zero (Fin a) \<longleftrightarrow> a = 0" "fl_zero NZero" "\<not> fl_zero PInf" "\<not> fl_zero NInf" "\<not> fl_zero NaN"
  by (simp_all add: fl_val_def fl_neg_def is_fin_def is_inf_def fl_zero_def)

lemma zero_fl_simps [simp]: "(0::fl) = Fin 0" "(1::fl) = Fin 1"
  by (simp_all add: zero_fl_def one_fl_def)

lemma fl_huge_pos: "0 < fl_huge" "1 < fl_huge" "2 ^ 53 < fl_huge"
proof -
  have "(2 :: real) ^ 53 < 2 ^ 1024" by (rule power_strict_increasing) simp_all
  then show "2 ^ 53 < fl_huge" by (simp only: fl_huge_def)
  moreover have "(1 :: real) < 2 ^ 53" by simp
  ultimately show "1 < fl_huge" by linarith
  then show "0 < fl_huge" by linarith
qed

lemma round_fl_Fin:
  assumes "\<bar>rnd x\<bar> < fl_huge" and "rnd x \<noteq> 0 \<or> 0 \<le> x"
  shows "round_fl x = Fin (rnd x)"
  using assms fl_huge_pos(1) by (auto simp: round_fl_def Let_def signed_zero_def)

lemma round_fl_fixed:
  assumes "rnd a = a" and "\<bar>a\<bar> < fl_huge"
  shows "round_fl a = Fin a"
  using round_fl_Fin[of a] assms by (cases "a = 0") auto

lemma round_fl_not_nan [simp]: "round_fl x \<noteq> NaN"
  by (simp add: round_fl_def Let_def signed_zero_def)

lemma round_fl_double [simp]: "is_double (round_fl x)"
  by (auto simp: round_fl_def Let_def signed_zero_def is_double_def)

lemma round_fl_cases:
  obtains (pinf) "round_fl x = PInf" "0 < x"
  | (ninf) "round_fl x = NInf" "x < 0"
  | (nzero) "round_fl x = NZero" "x < 0"
  | (fin) "round_fl x = Fin (rnd x)" "\<bar>rnd x\<bar> < fl_huge" "rnd (rnd x) = rnd x"
proof -
  consider "fl_huge \<le> rnd x" | "rnd x \<le> - fl_huge"
    | "\<bar>rnd x\<bar> < fl_huge" "rnd x = 0" "x < 0" | "\<bar>rnd x\<bar> < fl_huge" "rnd x \<noteq> 0 \<or> 0 \<le> x"
    by linarith
  then show ?thesis
  proof cases
    case 1
    then have "0 < x" using rnd_nonpos[of x] fl_huge_pos(1) by (cases "0 < x") auto
    moreover have "round_fl x = PInf" using 1 by (simp add: round_fl_def)
    ultimately show ?thesis by (rule pinf[rotated])
  next
    case 2
    then have "x < 0" using rnd_nonneg[of x] fl_huge_pos(1) by (cases "x < 0") auto
    moreover have "round_fl x = NInf" using 2 fl_huge_pos(1) by (simp add: round_fl_def)
    ultimately show ?thesis by (rule ninf[rotated])
  next
    case 3
    then have "round_fl x = NZero" using fl_huge_pos(1) by (simp add: round_fl_def signed_zero_def)
    then show ?thesis using 3(3) by (rule nzero)
  next
    case 4
    from round_fl_Fin[OF this] show ?thesis using 4(1) by (rule fin) simp
  qed
qed

lemma example_sum:
  "Fin (3602879701896397 / 2 ^ 55) + Fin (3602879701896397 / 2 ^ 54) = Fin (5404319552844596 / 2 ^ 54)"
proof -
  have "\<bar>5404319552844596 / 2 ^ 54 :: real\<bar> < 2 ^ 53" by simp
  then have "\<bar>5404319552844596 / 2 ^ 54 :: real\<bar> < fl_huge" using fl_huge_pos(3) by linarith
  then have "round_fl (3602879701896397 / 2 ^ 55 + 3602879701896397 / 2 ^ 54) = Fin (5404319552844596 / 2 ^ 54)"
    using rnd_sum_example by (subst round_fl_Fin) simp_all
  then show ?thesis by (simp add: plus_fl_def)
qed

lemma round_fl_exact:
  assumes "rnd a = a" and "\<bar>a\<bar> \<le> 2 ^ 53"
  shows "round_fl a = Fin a"
  using round_fl_fixed[OF assms(1)] assms(2) fl_huge_pos(3) by simp

lemma round_fl_numeral [simp]:
  "numeral k < (2 :: int) ^ 53 \<Longrightarrow> round_fl (numeral k) = Fin (numeral k)"
  "numeral k < (2 :: int) ^ 53 \<Longrightarrow> round_fl (- numeral k) = Fin (- numeral k)"
proof -
  assume k: "numeral k < (2 :: int) ^ 53"
  then have "(of_int (numeral k) :: real) < of_int (2 ^ 53)" by (simp only: of_int_less_iff)
  then have le: "\<bar>numeral k :: real\<bar> \<le> 2 ^ 53" by simp
  show "round_fl (numeral k) = Fin (numeral k)"
    using k le by (intro round_fl_exact rnd_numeral)
  show "round_fl (- numeral k) = Fin (- numeral k)"
    using k le by (intro round_fl_exact) (simp_all add: rnd_numeral)
qed

lemma round_fl_0 [simp]: "round_fl 0 = Fin 0"
  by (intro round_fl_exact) simp_all

lemma round_fl_1 [simp]: "round_fl 1 = Fin 1" "round_fl (- 1) = Fin (- 1)"
  by (intro round_fl_exact; simp)+

lemma rnd_half [simp]: "rnd (1 / 2) = 1 / 2"
  using rnd_dyadic[of 1 "- 1"] by (simp add: powr_minus)

lemma round_fl_half [simp]: "round_fl (1 / 2) = Fin (1 / 2)"
  by (intro round_fl_exact) simp_all

lemma rnd_quarter [simp]: "rnd (1 / 4) = 1 / 4"
  using rnd_dyadic[of 1 "- 2"] by (simp add: powr_minus)

lemma round_fl_fractions [simp]:
  "round_fl (- (1 / 2)) = Fin (- (1 / 2))" "round_fl (1 / 4) = Fin (1 / 4)"
  by (intro round_fl_exact; simp)+

text \<open>Overflow and underflow, as float64 has them.\<close>

lemma round_fl_overflow:
  assumes "fl_huge \<le> x"
  shows "round_fl x = PInf"
proof -
  have "rnd (of_int 1 * 2 powr of_int 1024) = of_int 1 * 2 powr of_int 1024"
    by (intro rnd_dyadic) simp_all
  then have "rnd fl_huge = fl_huge" by (simp add: fl_huge_def powr_realpow[of 2 1024, simplified])
  then have "fl_huge \<le> rnd x" using rnd_mono[OF assms] by simp
  then show ?thesis by (simp add: round_fl_def)
qed

lemma times_fl_overflow: "Fin (fl_huge / 2) * Fin 2 = PInf"
proof -
  have "round_fl (fl_huge / 2 * 2) = PInf" by (intro round_fl_overflow) simp
  moreover have "fl_huge / 2 \<noteq> 0" using fl_huge_pos(1) by simp
  ultimately show ?thesis by (simp add: times_fl_def)
qed

lemma times_fl_underflow: "Fin (2 powr - 600) * Fin (2 powr - 600) = Fin 0"
proof -
  have "(2 :: real) powr - 600 * 2 powr - 600 = 2 powr - 1200" by (simp flip: powr_add)
  moreover have "(2 :: real) powr - 1200 < 2 powr - 1075" by simp
  then have "rnd (2 powr - 1200) = 0" by (intro rnd_underflow) simp
  ultimately have "round_fl (2 powr - 600 * 2 powr - 600) = Fin 0"
    using fl_huge_pos(1) by (simp add: round_fl_def signed_zero_def)
  then show ?thesis by (simp add: times_fl_def)
qed

lemma round_fl_eq_Fin: "round_fl x = Fin a \<Longrightarrow> a = rnd x"
  by (cases x rule: round_fl_cases) simp_all

lemma round_fl_sign:
  "x \<le> 0 \<Longrightarrow> round_fl x = Fin a \<Longrightarrow> a \<le> 0"
  "0 \<le> x \<Longrightarrow> round_fl x = Fin a \<Longrightarrow> 0 \<le> a"
  using rnd_nonpos[of x] rnd_nonneg[of x] by (auto dest: round_fl_eq_Fin)

lemma quotient_core:
  assumes "p \<le> t" and "0 \<le> t" and "rnd p = p" and "p \<noteq> 0"
    and r: "round_fl (p - t) = Fin r" "r \<noteq> 0" and a: "round_fl (p / r) = Fin a"
  shows "a \<le> 1"
proof -
  have r': "r = rnd (p - t)" using r(1) by (rule round_fl_eq_Fin)
  then have "r \<le> 0" using assms(1) rnd_nonpos[of "p - t"] by simp
  then have neg: "r < 0" using r(2) by simp
  have a': "a = rnd (p / r)" using a by (rule round_fl_eq_Fin)
  show ?thesis
  proof (cases "0 < p")
    case True
    then have "p / r \<le> 0" using neg by (simp add: divide_nonneg_neg)
    then show ?thesis using rnd_nonpos[of "p / r"] a' by simp
  next
    case False
    then have p: "p < 0" using assms(4) by simp
    have "rnd (p - t) \<le> rnd p" using assms(2) by (intro rnd_mono) simp
    then have "r \<le> p" using r' assms(3) by simp
    then have "p / r \<le> 1" using p neg by (simp add: field_simps)
    then show ?thesis using rnd_mono[of "p / r" 1] a' by simp
  qed
qed

lemma is_double_simps [simp]:
  "is_double NaN" "is_double PInf" "is_double NInf" "is_double NZero"
  "is_double (Fin a) \<longleftrightarrow> rnd a = a \<and> \<bar>a\<bar> < fl_huge"
  by (simp_all add: is_double_def)

lemma is_inf_double: "is_inf v \<Longrightarrow> is_double v"
  by (auto simp: is_inf_def)

lemma plus_fl_double [simp]: "is_double ((p::fl) + q)"
  by (simp add: plus_fl_def is_inf_double)

lemma divide_fl_Fin:
  assumes "(u::fl) / v = Fin a"
  shows "a = 0 \<or> (\<exists>p r. u = Fin p \<and> v = Fin r \<and> p \<noteq> 0 \<and> r \<noteq> 0 \<and> round_fl (p / r) = Fin a)"
  using assms
  by (cases u; cases v) (auto simp: divide_fl_def signed_zero_def signed_inf_def split: if_splits)

lemma minus_fl_Fin:
  assumes "(u::fl) - T = Fin r" and "r \<noteq> 0"
  shows "is_fin u \<and> is_fin T \<and> round_fl (fl_val u - fl_val T) = Fin r"
  using assms
  by (cases u; cases T) (auto simp: minus_fl_def plus_fl_def uminus_fl_def split: if_splits)

lemma less_eq_fl_fin:
  "(u::fl) \<le> v \<Longrightarrow> is_fin u \<Longrightarrow> is_fin v \<Longrightarrow> fl_val u \<le> fl_val v"
  by (cases u; cases v) (simp_all add: less_eq_fl_def)

lemma quotient_at_most_one:
  assumes T: "0 \<le> T" and le: "u \<le> T" and u: "is_double u" and q: "u / (u - T) = Fin a"
  shows "a \<le> 1"
proof -
  from divide_fl_Fin[OF q] consider "a = 0"
    | p r where "u = Fin p" "u - T = Fin r" "p \<noteq> 0" "r \<noteq> 0" "round_fl (p / r) = Fin a"
    by blast
  then show ?thesis
  proof cases
    case 1
    then show ?thesis by simp
  next
    case 2
    from minus_fl_Fin[OF 2(2,4)] have fin: "is_fin T" and r: "round_fl (p - fl_val T) = Fin r"
      using 2(1) by simp_all
    have "p \<le> fl_val T" using less_eq_fl_fin[OF le _ fin] 2(1) by simp
    moreover have "0 \<le> fl_val T" using less_eq_fl_fin[OF T _ fin] by simp
    moreover have "rnd p = p" using u 2(1) by simp
    ultimately show ?thesis using quotient_core[OF _ _ _ 2(3) r 2(4,5)] by simp
  qed
qed

lemma divide_fl_double [simp]: "is_double ((p::fl) / q)"
  using fl_huge_pos(1) by (simp add: divide_fl_def signed_zero_def signed_inf_def)

text \<open>The correctly rounded logarithm is one of the logarithms \<open>np_log_ok\<close> admits.\<close>

lemma ln_double_bounds:
  assumes "0 < a" and "rnd a = a" and "a < fl_huge"
  shows "\<bar>ln a\<bar> \<le> 1074"
proof -
  have l2: "0 \<le> ln (2 :: real)" "ln (2 :: real) \<le> 1" using ln_le_minus_one[of "2 :: real"] by simp_all
  have "ln a \<le> ln (2 ^ 1024)" using assms(1,3) unfolding fl_huge_def by simp
  also have "\<dots> = 1024 * ln 2" by (simp only: ln_realpow of_nat_numeral)
  finally have up: "ln a \<le> 1024" using l2 by simp
  have "ln (2 powr - 1074) \<le> ln a"
    using rnd_fixed_least[OF assms(2,1)] assms(1) by (intro ln_mono) simp_all
  then have "- 1074 * ln 2 \<le> ln a" by (simp only: ln_powr)
  moreover have "- 1074 \<le> - 1074 * ln (2 :: real)" using l2 by simp
  ultimately show ?thesis using up by simp
qed

text \<open>A double other than 1 is at least half a unit in the last place away from 1.\<close>

lemma double_above_one:
  assumes "rnd a = a" and "1 < a"
  shows "1 + 2 powr - 52 \<le> a"
proof (cases "a < 2")
  case True
  have "rpos a = 2 powr (of_int 0 - 52) * of_int (rhe (a / 2 powr (of_int 0 - 52)))"
    using assms(2) True by (intro rpos_at) simp_all
  then have a: "a = 2 powr - 52 * of_int (rhe (a / 2 powr - 52))"
    using assms by (simp add: rnd_def)
  define n where "n = rhe (a / 2 powr - 52)"
  have u: "(2 :: real) powr - 52 * 2 ^ 52 = 1" by (simp add: powr_minus)
  have "(2 :: real) powr - 52 * 2 ^ 52 < 2 powr - 52 * of_int n" using a assms(2) u by (simp add: n_def)
  then have "(of_int (2 ^ 52) :: real) < of_int n" by simp
  then have "2 ^ 52 + 1 \<le> n" by (simp only: of_int_less_iff)
  then have "(of_int (2 ^ 52 + 1) :: real) \<le> of_int n" by (simp only: of_int_le_iff)
  then have "(2 :: real) powr - 52 * (2 ^ 52 + 1) \<le> 2 powr - 52 * of_int n"
    by (intro mult_left_mono) simp_all
  then show ?thesis using a u by (simp add: n_def algebra_simps)
next
  case False
  have "(2 :: real) powr - 52 \<le> 2 powr 0" by (rule powr_mono) simp_all
  then show ?thesis using False by simp
qed

lemma double_below_one:
  assumes "rnd a = a" and "0 < a" and "a < 1"
  shows "a \<le> 1 - 2 powr - 53"
proof (cases "1 / 2 \<le> a")
  case True
  have "rpos a = 2 powr (of_int (- 1) - 52) * of_int (rhe (a / 2 powr (of_int (- 1) - 52)))"
    using assms(3) True by (intro rpos_at) (simp_all add: powr_minus)
  then have a: "a = 2 powr - 53 * of_int (rhe (a / 2 powr - 53))"
    using assms by (simp add: rnd_def)
  define n where "n = rhe (a / 2 powr - 53)"
  have u: "(2 :: real) powr - 53 * 2 ^ 53 = 1" by (simp add: powr_minus)
  have "(2 :: real) powr - 53 * of_int n < 2 powr - 53 * 2 ^ 53" using a assms(3) u by (simp add: n_def)
  then have "(of_int n :: real) < of_int (2 ^ 53)" by simp
  then have "n \<le> 2 ^ 53 - 1" by (simp only: of_int_less_iff)
  then have "(of_int n :: real) \<le> of_int (2 ^ 53 - 1)" by (simp only: of_int_le_iff)
  then have "(2 :: real) powr - 53 * of_int n \<le> 2 powr - 53 * (2 ^ 53 - 1)"
    by (intro mult_left_mono) simp_all
  then show ?thesis using a u by (simp add: n_def algebra_simps)
next
  case False
  have "(2 :: real) powr - 53 \<le> 2 powr - 1" by (rule powr_mono) simp_all
  then have "(2 :: real) powr - 53 \<le> 1 / 2" by (simp add: powr_minus)
  then show ?thesis using False by simp
qed

lemma ln_double_away:
  assumes "rnd a = a" and "0 < a" and "a \<noteq> 1"
  shows "2 powr - 1022 \<le> \<bar>ln a\<bar>"
proof -
  have small: "(2 :: real) powr - 1022 \<le> 2 powr - 53" "(2 :: real) powr - 52 \<le> 1"
    using powr_le_cancel_iff[of "2 :: real" "- 52" 0] by simp_all
  have half: "(2 :: real) powr - 53 = 2 powr - 52 / 2"
    using powr_add[of "2 :: real" "- 52" "- 1"] by (simp add: powr_minus)
  consider "1 < a" | "a < 1" using assms(3) by linarith
  then have "2 powr - 53 \<le> \<bar>ln a\<bar>"
  proof cases
    case 1
    define t :: real where "t = 2 powr - 52"
    have t: "0 < t" "t \<le> 1" using small(2) by (simp_all add: t_def)
    have a: "1 + t \<le> a" using double_above_one[OF assms(1) 1] by (simp add: t_def)
    have "ln (1 / a) \<le> 1 / a - 1" using assms(2) by (intro ln_le_minus_one) simp
    then have "1 - 1 / a \<le> ln a" using assms(2) by (simp add: ln_div)
    moreover have "1 / a \<le> 1 / (1 + t)" using a t by (intro divide_left_mono) simp_all
    moreover have "t / 2 \<le> 1 - 1 / (1 + t)" using t by (simp add: field_simps)
    ultimately have "t / 2 \<le> ln a" by linarith
    then show ?thesis using half by (simp add: t_def)
  next
    case 2
    have "ln a \<le> a - 1" using assms(2) by (rule ln_le_minus_one)
    then have "ln a \<le> - (2 powr - 53)" using double_below_one[OF assms(1,2) 2] by linarith
    moreover have "(0 :: real) \<le> 2 powr - 53" by simp
    ultimately show ?thesis by linarith
  qed
  then show ?thesis using small(1) by linarith
qed

lemma rnd_error_normal:
  assumes "2 powr - 1022 \<le> \<bar>x\<bar>"
  shows "\<bar>rnd x - x\<bar> \<le> \<bar>x\<bar> * 2 powr - 53"
proof -
  have pos: "\<bar>rpos y - y\<bar> \<le> y * 2 powr - 53" if y: "2 powr - 1022 \<le> y" for y :: real
  proof -
    have y0: "0 < y" using y powr_gt_zero[of 2 "- 1022 :: real"] by linarith
    define e where "e = max \<lfloor>log 2 y\<rfloor> (- 1022)"
    define u :: real where "u = 2 powr (of_int e - 52)"
    note X = rpos_unfold[OF y0, folded e_def, folded u_def]
    have "2 powr - 1022 \<le> 2 powr log 2 y" using y y0 by simp
    then have "- 1022 \<le> log 2 y" by (simp only: powr_le_cancel_iff)
    then have fl: "- 1022 \<le> \<lfloor>log 2 y\<rfloor>" by (simp add: le_floor_iff)
    have "rpos y - y = u * (of_int (rhe (y / u)) - y / u)"
      using X(1,2) by (simp add: algebra_simps)
    then have "\<bar>rpos y - y\<bar> = u * \<bar>of_int (rhe (y / u)) - y / u\<bar>"
      using X(2) by (simp add: abs_mult)
    also have "\<dots> \<le> u * (1 / 2)"
      using rhe_near[of "y / u"] X(2) by (intro mult_left_mono) simp_all
    finally have near: "\<bar>rpos y - y\<bar> \<le> u / 2" by simp
    have "(2 :: real) powr - 53 = 1 / 2 ^ 53" by (simp add: powr_minus field_simps)
    then have "y * 2 powr - 53 = y / 2 ^ 53" by (simp only: times_divide_eq_right mult_1_right)
    moreover from X(8)[OF fl] have "u / 2 \<le> y / 2 ^ 53" by simp
    ultimately show ?thesis using near by linarith
  qed
  consider "0 < x" | "x < 0" | "x = 0" by linarith
  then show ?thesis
  proof cases
    case 1
    then show ?thesis using pos[of x] assms by (simp add: rnd_def)
  next
    case 2
    then show ?thesis using pos[of "- x"] assms by (simp add: rnd_def)
  next
    case 3
    then show ?thesis by simp
  qed
qed

lemma round_fl_small:
  assumes "\<bar>x\<bar> \<le> 2 ^ 53"
  shows "is_fin (round_fl x)" and "fl_val (round_fl x) = rnd x"
proof -
  have "rnd (- (of_int (2 ^ 53))) \<le> rnd x" "rnd x \<le> rnd (of_int (2 ^ 53))"
    using assms by (intro rnd_mono; simp)+
  moreover have "rnd (of_int (2 ^ 53)) = of_int 1 * 2 powr of_int 53"
    using rnd_dyadic[of 1 53] by (simp add: powr_realpow[of 2 53, simplified])
  ultimately have "\<bar>rnd x\<bar> \<le> 2 ^ 53" by (simp add: powr_realpow[of 2 53, simplified])
  then have "\<bar>rnd x\<bar> < fl_huge" using fl_huge_pos(3) by linarith
  then show "is_fin (round_fl x)" "fl_val (round_fl x) = rnd x"
    using fl_huge_pos(1) by (auto simp: round_fl_def Let_def signed_zero_def)
qed

lemma np_log_okD:
  assumes "np_log_ok lg" and "0 < a" and "is_double (Fin a)"
  shows "is_fin (lg (Fin a))" and "is_double (lg (Fin a))"
    and "\<bar>fl_val (lg (Fin a)) - ln a\<bar> \<le> \<bar>ln a\<bar> * 2 powr - 50"
  using assms unfolding np_log_ok_def by blast+

lemma np_log_ok_flog: "np_log_ok flog"
proof -
  have pos: "is_fin (flog (Fin a)) \<and> is_double (flog (Fin a)) \<and>
        \<bar>fl_val (flog (Fin a)) - ln a\<bar> \<le> \<bar>ln a\<bar> * 2 powr - 50"
    if a: "0 < a" "is_double (Fin a)" for a
  proof -
    have "\<bar>ln a\<bar> \<le> 1074" using a by (intro ln_double_bounds) simp_all
    then have small: "\<bar>ln a\<bar> \<le> 2 ^ 53" by simp
    note R = round_fl_small[OF small]
    have fl: "flog (Fin a) = round_fl (ln a)" using a by (simp add: flog_def)
    have "\<bar>rnd (ln a) - ln a\<bar> \<le> \<bar>ln a\<bar> * 2 powr - 53"
    proof (cases "a = 1")
      case True
      then show ?thesis by simp
    next
      case False
      then show ?thesis using a by (intro rnd_error_normal ln_double_away) simp_all
    qed
    moreover have "\<bar>ln a\<bar> * 2 powr - 53 \<le> \<bar>ln a\<bar> * 2 powr - 50"
      by (intro mult_left_mono) simp_all
    ultimately have "\<bar>rnd (ln a) - ln a\<bar> \<le> \<bar>ln a\<bar> * 2 powr - 50" by linarith
    then show ?thesis unfolding fl using R by simp
  qed
  have "\<forall>a. 0 < a \<and> is_double (Fin a) \<longrightarrow>
        is_fin (flog (Fin a)) \<and> is_double (flog (Fin a)) \<and>
        \<bar>fl_val (flog (Fin a)) - ln a\<bar> \<le> \<bar>ln a\<bar> * 2 powr - 50"
    using pos by blast
  moreover have "flog NaN = NaN \<and> flog NInf = NaN \<and> flog PInf = PInf \<and> flog (Fin 0) = NInf \<and>
      flog NZero = NInf \<and> (\<forall>a. a < 0 \<longrightarrow> flog (Fin a) = NaN)"
    by (simp add: flog_def)
  ultimately show ?thesis unfolding np_log_ok_def by blast
qed

lemma ln2_log:
  shows "flog (Fin 2) = Fin (rnd (ln 2))" and "1 / 2 \<le> rnd (ln 2)" and "rnd (ln 2) \<le> 1"
    and "Fin 1 / Fin (rnd (ln 2)) = Fin (rnd (1 / rnd (ln 2)))" and "1 \<le> rnd (1 / rnd (ln 2))"
proof -
  have "ln (1 / 2 :: real) \<le> 1 / 2 - 1" by (rule ln_le_minus_one) simp
  then have lo: "1 / 2 \<le> ln (2 :: real)" by (simp add: ln_div)
  have hi: "ln (2 :: real) \<le> 1" using ln_le_minus_one[of "2 :: real"] by simp
  show l: "1 / 2 \<le> rnd (ln 2)" using rnd_mono[OF lo] by simp
  show h: "rnd (ln 2) \<le> 1" using rnd_mono[OF hi] by simp
  have "\<bar>rnd (ln 2)\<bar> < fl_huge" using l h fl_huge_pos(2) by linarith
  then have "round_fl (ln 2) = Fin (rnd (ln 2))" using l by (intro round_fl_Fin) simp_all
  then show "flog (Fin 2) = Fin (rnd (ln 2))" by (simp add: flog_def)
  have "1 \<le> 1 / rnd (ln 2)" "1 / rnd (ln 2) \<le> 2" using l h by (simp_all add: field_simps)
  from rnd_mono[OF this(1)] rnd_mono[OF this(2)]
  have b: "1 \<le> rnd (1 / rnd (ln 2))" "rnd (1 / rnd (ln 2)) \<le> 2" by (simp_all add: rnd_numeral)
  then show "1 \<le> rnd (1 / rnd (ln 2))" by simp
  have "\<bar>rnd (1 / rnd (ln 2))\<bar> < fl_huge" using b fl_huge_pos(3) by simp
  then have "round_fl (1 / rnd (ln 2)) = Fin (rnd (1 / rnd (ln 2)))" using b by (intro round_fl_Fin) simp_all
  then show "Fin 1 / Fin (rnd (ln 2)) = Fin (rnd (1 / rnd (ln 2)))" using l by (simp add: divide_fl_def)
qed

section \<open>The analytical rate function: theorems\<close>

lemma LIF_io_array:
  assumes "is_float f" and "is_float b" and "is_float T" and "sh \<noteq> []"
  shows "LIF_io lg (NdArray sh xs) f b T =
           Inr (NdArray sh (map (rate_at lg (float_of f) (float_of b) (float_of T)) xs))"
  using assms
  by (cases f; cases b; cases T)
     (simp_all add: LIF_io_def mul_def add_def sub_def true_divide_def unbox_def Let_def
        mask_assign_def rate_at_def map2_map_map zip_same_conv_map comp_def isnan_def)

lemma LIF_io_scalar:
  assumes "is_float f" and "is_float b" and "is_float T" and "is_float x \<or> (\<exists>xs. x = NdArray [] xs)"
  shows "LIF_io lg x f b T =
           Inl (if is_python x \<and> is_python f \<and> is_python b \<and> is_python T \<and>
                   fl_zero (float_of f * float_of x + float_of b - float_of T)
                then ZeroDivisionError else TypeError)"
  using assms
  by (cases f; cases b; cases T; cases x)
     (auto simp: LIF_io_def mul_def add_def sub_def true_divide_def unbox_def Let_def)


lemma rate_of_log:
  assumes lg: "np_log_ok lg" and q: "is_double q" and le: "\<And>a. q = Fin a \<Longrightarrow> a \<le> 1"
  shows "(let out = lg q; rate = 1 / out; rate = (if out \<le> 0 then 0 else rate)
          in if isnan rate then 0 else rate) = 0"
proof -
  consider (nan) "lg q = NaN" | (ninf) "lg q = NInf" | (pinf) "lg q = PInf"
    | (fin) "is_fin (lg q)" "fl_val (lg q) \<le> 0"
  proof (cases q)
    case (Fin a)
    consider "a < 0" | "a = 0" | "0 < a" by linarith
    then show ?thesis
    proof cases
      case 1
      then show ?thesis using lg Fin nan by (simp add: np_log_ok_def)
    next
      case 2
      then show ?thesis using lg Fin ninf by (simp add: np_log_ok_def)
    next
      case 3
      have "a \<le> 1" using le Fin by simp
      then have neg: "ln a \<le> 0" using 3 by simp
      have "is_fin (lg (Fin a))" and "\<bar>fl_val (lg (Fin a)) - ln a\<bar> \<le> \<bar>ln a\<bar> * 2 powr - 50"
        using lg q Fin 3 unfolding np_log_ok_def by blast+
      moreover have "\<bar>ln a\<bar> * 2 powr - 50 \<le> \<bar>ln a\<bar> * 1"
        by (intro mult_left_mono) (simp_all add: powr_minus inverse_le_1_iff)
      ultimately have "is_fin (lg (Fin a)) \<and> fl_val (lg (Fin a)) \<le> 0" using neg by simp
      then show ?thesis using Fin fin by simp
    qed
  qed (use lg nan ninf pinf in \<open>simp_all add: np_log_ok_def\<close>)
  then show ?thesis
  proof cases
    case fin
    then have "lg q \<le> 0" by (cases "lg q") (simp_all add: less_eq_fl_def)
    then show ?thesis by (simp add: isnan_def)
  qed (simp_all add: isnan_def less_eq_fl_def divide_fl_def signed_zero_def)
qed

lemma rate_at_subthreshold:
  assumes "np_log_ok lg" and "0 \<le> T" and "f * v + b \<le> T"
  shows "rate_at lg f b T v = 0"
  unfolding rate_at_def
  using quotient_at_most_one[OF assms(2,3) plus_fl_double]
  by (intro rate_of_log[OF assms(1)]) simp_all

lemma rate_at_not_nan: "rate_at lg f b T v \<noteq> NaN"
  by (simp add: rate_at_def Let_def isnan_def)

lemma LIF_io_negative_threshold:
  assumes "np_log_ok lg"
  shows "\<exists>r. LIF_io lg (NdArray [1] [Fin (- 2)]) (PyFloat (Fin 1)) (PyFloat (Fin 0)) (PyFloat (Fin (- 1))) =
              Inr (NdArray [1] [Fin r]) \<and> 0 < r"
proof -
  have l2: "1 / 2 \<le> ln (2 :: real)" "ln (2 :: real) \<le> 1"
    using ln_le_minus_one[of "1 / 2 :: real"] ln_le_minus_one[of "2 :: real"] by (simp_all add: ln_div)
  have "is_double (Fin 2)" using fl_huge_pos(3) by (simp add: rnd_numeral)
  from np_log_okD(1,3)[OF assms _ this]
  have fin: "is_fin (lg (Fin 2))"
    and err: "\<bar>fl_val (lg (Fin 2)) - ln 2\<bar> \<le> \<bar>ln 2\<bar> * 2 powr - 50" by simp_all
  have "(2 :: real) powr - 50 \<le> 2 powr - 2" by simp
  moreover have "(2 :: real) powr - 2 = 1 / 4" by (simp add: powr_minus)
  ultimately have p: "(2 :: real) powr - 50 \<le> 1 / 4" by (simp only:)
  have "\<bar>ln (2 :: real)\<bar> * 2 powr - 50 \<le> 1 * (1 / 4)"
    using l2 p by (intro mult_mono) simp_all
  then have near: "\<bar>fl_val (lg (Fin 2)) - ln 2\<bar> \<le> 1 / 4" using err by linarith
  define c where "c = fl_val (lg (Fin 2))"
  have c: "1 / 4 \<le> c" "c \<le> 2" using near l2 unfolding c_def by linarith+
  have out: "lg (Fin 2) = Fin c" using fin c(1) unfolding c_def by (cases "lg (Fin 2)") simp_all
  have "1 / 2 \<le> 1 / c" "1 / c \<le> 4" using c by (simp_all add: field_simps)
  from rnd_mono[OF this(1)] rnd_mono[OF this(2)] have r: "1 / 2 \<le> rnd (1 / c)" "rnd (1 / c) \<le> 4"
    by (simp_all add: rnd_numeral)
  then have "\<bar>rnd (1 / c)\<bar> < fl_huge" using fl_huge_pos(3) by simp
  then have "round_fl (1 / c) = Fin (rnd (1 / c))" using r by (intro round_fl_Fin) simp_all
  then have "rate_at lg (Fin 1) (Fin 0) (Fin (- 1)) (Fin (- 2)) = Fin (rnd (1 / c))"
    using out c(1)
    by (simp add: rate_at_def isnan_def times_fl_def plus_fl_def minus_fl_def uminus_fl_def
        divide_fl_def less_eq_fl_def)
  then show ?thesis using r by (simp add: LIF_io_array)
qed

text \<open>
  Claim C1 says that for all parameters \<open>f\<close>, \<open>b\<close>, \<open>T\<close> the rate is 0 wherever
  \<open>f * x + b \<le> T\<close>. With a negative threshold it is not: for \<open>f = 1\<close>, \<open>b = 0\<close>, \<open>T = -1\<close> and
  the array \<open>x = [-2]\<close> the logarithm is that of 2, which is positive, no mask applies and
  the rate is \<open>1 / ln 2\<close>, each rounded, a number \<open>\<ge> 1\<close>. The statement is for the correctly
  rounded logarithm; by \<open>LIF_io_negative_threshold\<close> the rate is positive for every logarithm
  \<open>np_log_ok\<close> admits.
\<close>

theorem LIF_io_subthreshold_counterexample:
  "Fin 1 * Fin (- 2) + Fin 0 \<le> Fin (- 1) \<and>
   LIF_io flog (NdArray [1] [Fin (- 2)]) (PyFloat (Fin 1)) (PyFloat (Fin 0)) (PyFloat (Fin (- 1))) =
     Inr (NdArray [1] [Fin (rnd (1 / rnd (ln 2)))]) \<and>
   1 \<le> rnd (1 / rnd (ln 2))"
  using ln2_log
  by (simp add: LIF_io_array rate_at_def isnan_def times_fl_def plus_fl_def minus_fl_def uminus_fl_def
      divide_fl_def less_eq_fl_def)

text \<open>
  Claim C1, amended. For every array \<open>x\<close> of one or more dimensions, all floats \<open>f\<close>, \<open>b\<close>
  (Python floats or \<^verbatim>\<open>np.float64\<close>) and every float threshold \<open>T \<ge> 0\<close>, \<^verbatim>\<open>LIF_io\<close> returns (no
  error) an array of the shape of \<open>x\<close> that is exactly 0 at every position where
  \<open>f * x + b \<le> T\<close> in float64, whether the logarithm there is non-positive, infinite or NaN,
  and whether the operations overflow or underflow; and no position of the result is NaN.
\<close>

theorem LIF_io_subthreshold_zero:
  assumes "np_log_ok lg" and "is_float f" and "is_float b" and "is_float T" and "sh \<noteq> []"
    and "0 \<le> float_of T"
  shows "\<exists>rate. LIF_io lg (NdArray sh xs) f b T = Inr (NdArray sh rate) \<and> length rate = length xs \<and>
           (\<forall>k < length xs. (float_of f * xs ! k + float_of b \<le> float_of T \<longrightarrow> rate ! k = 0) \<and>
                         \<not> isnan (rate ! k))"
  using rate_at_subthreshold[OF assms(1,6)] rate_at_not_nan
  by (simp add: LIF_io_array[OF assms(2-5)] isnan_def)

theorem LIF_io_subthreshold_zero_witness:
  "np_log_ok flog \<and> is_float (PyFloat (Fin 1)) \<and> is_float (NpFloat (Fin 0)) \<and> [2, 3] \<noteq> ([] :: nat list) \<and>
   0 \<le> float_of (PyFloat (Fin 1)) \<and>
   (\<exists>rate. LIF_io flog (NdArray [2, 3] [Fin 0, Fin 1, Fin (- 1), NInf, NaN, Fin 2])
               (PyFloat (Fin 1)) (NpFloat (Fin 0)) (PyFloat (Fin 1)) = Inr (NdArray [2, 3] rate) \<and>
      length rate = 6 \<and>
      Fin 1 * Fin 0 + Fin 0 \<le> Fin 1 \<and> rate ! 0 = 0 \<and>
      Fin 1 * Fin 1 + Fin 0 \<le> Fin 1 \<and> rate ! 1 = 0 \<and>
      Fin 1 * Fin (- 1) + Fin 0 \<le> Fin 1 \<and> rate ! 2 = 0 \<and>
      Fin 1 * NInf + Fin 0 \<le> Fin 1 \<and> rate ! 3 = 0 \<and>
      \<not> isnan (rate ! 4) \<and> \<not> isnan (rate ! 5))"
proof -
  from LIF_io_subthreshold_zero[OF np_log_ok_flog, of "PyFloat (Fin 1)" "NpFloat (Fin 0)" "PyFloat (Fin 1)"
      "[2, 3]" "[Fin 0, Fin 1, Fin (- 1), NInf, NaN, Fin 2]"]
  obtain rate where rate: "LIF_io flog (NdArray [2, 3] [Fin 0, Fin 1, Fin (- 1), NInf, NaN, Fin 2])
               (PyFloat (Fin 1)) (NpFloat (Fin 0)) (PyFloat (Fin 1)) = Inr (NdArray [2, 3] rate)"
    "length rate = 6"
    and all: "\<And>k. k < 6 \<Longrightarrow> (Fin 1 * [Fin 0, Fin 1, Fin (- 1), NInf, NaN, Fin 2] ! k + Fin 0 \<le> Fin 1 \<longrightarrow> rate ! k = 0) \<and>
                         \<not> isnan (rate ! k)"
    by (auto simp: less_eq_fl_def)
  have le: "Fin 1 * Fin 0 + Fin 0 \<le> Fin 1" "Fin 1 * Fin 1 + Fin 0 \<le> Fin 1"
    "Fin 1 * Fin (- 1) + Fin 0 \<le> Fin 1" "Fin 1 * NInf + Fin 0 \<le> Fin 1"
    by (simp_all add: times_fl_def plus_fl_def less_eq_fl_def signed_zero_def signed_inf_def)
  show ?thesis
    using rate le all[of 0] all[of 1] all[of 2] all[of 3] all[of 4] all[of 5] np_log_ok_flog
    by (simp add: less_eq_fl_def)
qed

text \<open>
  Claim C8 says that \<^verbatim>\<open>LIF_io\<close> returns the rate for a scalar \<open>x\<close>. For \<open>f = 0.5\<close>,
  \<open>b = 0\<close>, \<open>T = 1\<close> and the scalar \<open>x = 4\<close> it raises TypeError, for a Python float, for a
  NumPy scalar and for an array without dimensions alike: the masked assignment needs an
  array of one or more dimensions.
\<close>

theorem LIF_io_scalar_counterexample:
  "LIF_io flog (PyFloat (Fin 4)) (PyFloat (Fin (1 / 2))) (PyFloat (Fin 0)) (PyFloat (Fin 1)) = Inl TypeError \<and>
   LIF_io flog (NpFloat (Fin 4)) (NpFloat (Fin (1 / 2))) (NpFloat (Fin 0)) (NpFloat (Fin 1)) = Inl TypeError \<and>
   LIF_io flog (NdArray [] [Fin 4]) (PyFloat (Fin (1 / 2))) (PyFloat (Fin 0)) (PyFloat (Fin 1)) = Inl TypeError"
  by (simp add: LIF_io_scalar times_fl_def plus_fl_def minus_fl_def uminus_fl_def)


text \<open>
  Claim C8, amended. With floats \<open>f\<close>, \<open>b\<close>, \<open>T\<close> (Python floats or \<^verbatim>\<open>np.float64\<close>),
  \<^verbatim>\<open>LIF_io\<close> accepts an array \<open>x\<close> of one or more dimensions only. For every such array it
  returns, without an error, the array of the rates \<open>1 / ln ((f*x+b) / (f*x+b-T))\<close>, set to 0
  where the logarithm is \<open>\<le> 0\<close> or the rate is NaN. For every scalar \<open>x\<close> (a Python float, an
  \<^verbatim>\<open>np.float64\<close> or an array without dimensions) it raises an error: ZeroDivisionError when
  \<open>x\<close>, \<open>f\<close>, \<open>b\<close>, \<open>T\<close> are all Python floats and \<open>f*x+b-T\<close> is a zero in float64 (in
  the witness by underflow of \<open>f*x\<close>), and TypeError at the first masked assignment
  otherwise.
\<close>

theorem LIF_io_scalar_raises:
  assumes "is_float f" and "is_float b" and "is_float T"
  shows "(is_float x \<or> (\<exists>xs. x = NdArray [] xs) \<longrightarrow>
            LIF_io lg x f b T =
              Inl (if is_python x \<and> is_python f \<and> is_python b \<and> is_python T \<and>
                      fl_zero (float_of f * float_of x + float_of b - float_of T)
                   then ZeroDivisionError else TypeError)) \<and>
         (\<forall>sh xs. x = NdArray sh xs \<and> sh \<noteq> [] \<longrightarrow>
            LIF_io lg x f b T =
              Inr (NdArray sh (map (rate_at lg (float_of f) (float_of b) (float_of T)) xs)))"
  using LIF_io_scalar[OF assms, of x lg] LIF_io_array[OF assms] by blast

theorem LIF_io_scalar_raises_witness:
  "is_float (PyFloat (Fin (2 powr - 600))) \<and> is_float (PyFloat (Fin 0)) \<and>
   LIF_io flog (PyFloat (Fin (2 powr - 600))) (PyFloat (Fin (2 powr - 600))) (PyFloat (Fin 0)) (PyFloat (Fin 0)) =
     Inl ZeroDivisionError \<and>
   LIF_io flog (NpFloat (Fin (2 powr - 600))) (PyFloat (Fin (2 powr - 600))) (PyFloat (Fin 0)) (PyFloat (Fin 0)) =
     Inl TypeError \<and>
   LIF_io flog (NdArray [] [Fin 4]) (PyFloat (Fin (2 powr - 600))) (PyFloat (Fin 0)) (PyFloat (Fin 0)) =
     Inl TypeError \<and>
   LIF_io flog (NdArray [2] [Fin 1, Fin 2]) (PyFloat (Fin (2 powr - 600))) (PyFloat (Fin 0)) (PyFloat (Fin 0)) =
     Inr (NdArray [2] [rate_at flog (Fin (2 powr - 600)) (Fin 0) (Fin 0) (Fin 1),
                       rate_at flog (Fin (2 powr - 600)) (Fin 0) (Fin 0) (Fin 2)])"
  using LIF_io_scalar_raises[of "PyFloat (Fin (2 powr - 600))" "PyFloat (Fin 0)" "PyFloat (Fin 0)"
      "PyFloat (Fin (2 powr - 600))" flog]
    LIF_io_scalar_raises[of "PyFloat (Fin (2 powr - 600))" "PyFloat (Fin 0)" "PyFloat (Fin 0)"
      "NpFloat (Fin (2 powr - 600))" flog]
    LIF_io_scalar_raises[of "PyFloat (Fin (2 powr - 600))" "PyFloat (Fin 0)" "PyFloat (Fin 0)"
      "NdArray [] [Fin 4]" flog]
    LIF_io_scalar_raises[of "PyFloat (Fin (2 powr - 600))" "PyFloat (Fin 0)" "PyFloat (Fin 0)"
      "NdArray [2] [Fin 1, Fin 2]" flog]
  by (simp add: times_fl_underflow plus_fl_def minus_fl_def uminus_fl_def)

section \<open>Spikes and filtered rates over the floats\<close>

text \<open>
  The filtered rates and the spikes of a call that returns do not depend on the voltages:
  \<open>rate_inv\<close> holds after every step that returns, whatever the shapes and the values of
  \<open>x\<close>, \<open>F\<close>, \<open>b\<close> and \<open>T\<close> are. Over the floats a filtered rate stays a double between 0 and
  \<open>2 ^ 53\<close>, where adding a spike no longer changes it, so it never overflows.
\<close>

lemma euler_step_rates:
  fixes x :: "'a::{zero,one,plus,times,uminus,ord} list"
  assumes step: "euler_step x F b T dt i (V, s, r) = Inr (V', s', r')"
    and inv: "rate_inv dt (length F) nT (i - 1) s r" and i: "1 \<le> i" "i < nT"
  shows "rate_inv dt (length F) nT i s' r'"
proof -
  let ?N = "length F"
  have S: "shape_ok ?N nT s" and R: "shape_ok ?N nT r" using inv by (simp_all add: rate_inv_def)
  have ls: "length s = ?N" and lr: "length r = ?N" using S R by (simp_all add: shape_okD)
  define t3 where "t3 = map2 (+) (col r (i - 1)) (map (\<lambda>v. dt * v) (map uminus (col r (i - 1))))"
  define rnew where "rnew = map2 (+) t3 (col s (i - 1))"
  define r1 where "r1 = map2 (\<lambda>row v. row[i := v]) r rnew"
  have lt3: "length t3 = ?N" using lr by (simp add: col_def t3_def)
  have lrnew: "length rnew = ?N" using lt3 ls by (simp add: col_def rnew_def)
  have e5: "broadcast2 (+) (col r (i - 1)) (map (\<lambda>v. dt * v) (map uminus (col r (i - 1)))) = Inr t3"
    by (simp add: broadcast2_same col_def t3_def)
  have e6: "broadcast2 (+) t3 (col s (i - 1)) = Inr rnew"
    using lt3 ls by (simp add: broadcast2_same col_def rnew_def)
  have e7: "assign_col r i rnew = Inr r1"
    using lr lrnew by (simp add: assign_col_same r1_def)
  from step obtain sp where s': "s' = assign_at s sp i 1" and r': "r' = r1"
    unfolding euler_step_def prod.case e5 e6 e7 ebind_Inr by (auto simp: ebind_eq_Inr)
  have S': "shape_ok ?N nT s'" unfolding s' using S by (rule shape_ok_assign_at)
  have R': "shape_ok ?N nT r'" unfolding r' r1_def using R lrnew by (rule shape_ok_map2_update)
  have rows: "length (s ! j) = nT" "length (r ! j) = nT" if "j < ?N" for j
    using that S R by (simp_all add: shape_okD)
  have s_at: "s' ! j ! i' = (if j \<in> set sp \<and> i' = i then 1 else s ! j ! i')"
    if "j < ?N" "i' < nT" for j i'
    using that ls rows(1)[of j] by (simp add: s' nth_assign_at nth_list_update)
  have rnew_at: "rnew ! j = r ! j ! (i - 1) + dt * (- (r ! j ! (i - 1))) + s ! j ! (i - 1)" if "j < ?N" for j
    using that ls lr lt3 by (simp add: rnew_def t3_def col_def)
  have r_at: "r' ! j ! i' = (if i' = i then rnew ! j else r ! j ! i')"
    if "j < ?N" "i' < nT" for j i'
    using that lr lrnew rows(2)[of j] by (simp add: r' r1_def nth_list_update)
  have old: "(s ! j ! i' = 0 \<or> s ! j ! i' = 1) \<and>
        (i' = 0 \<or> i - 1 < i' \<longrightarrow> s ! j ! i' = 0 \<and> r ! j ! i' = 0) \<and>
        (1 \<le> i' \<and> i' \<le> i - 1 \<longrightarrow> r ! j ! i' = r ! j ! (i' - 1) + dt * (- (r ! j ! (i' - 1))) + s ! j ! (i' - 1))"
    if "j < ?N" "i' < nT" for j i'
    using inv that unfolding rate_inv_def by blast
  have "(s' ! j ! i' = 0 \<or> s' ! j ! i' = 1) \<and>
        (i' = 0 \<or> i < i' \<longrightarrow> s' ! j ! i' = 0 \<and> r' ! j ! i' = 0) \<and>
        (1 \<le> i' \<and> i' \<le> i \<longrightarrow> r' ! j ! i' = r' ! j ! (i' - 1) + dt * (- (r' ! j ! (i' - 1))) + s' ! j ! (i' - 1))"
    if j: "j < ?N" and i': "i' < nT" for j i'
  proof (intro conjI impI)
    show "s' ! j ! i' = 0 \<or> s' ! j ! i' = 1" using old[OF j i'] by (simp add: s_at[OF j i'])
    show "s' ! j ! i' = 0" if "i' = 0 \<or> i < i'"
      using that old[OF j i'] i by (auto simp: s_at[OF j i'])
    show "r' ! j ! i' = 0" if "i' = 0 \<or> i < i'"
      using that old[OF j i'] i by (auto simp: r_at[OF j i'])
    show "r' ! j ! i' = r' ! j ! (i' - 1) + dt * (- (r' ! j ! (i' - 1))) + s' ! j ! (i' - 1)"
      if "1 \<le> i' \<and> i' \<le> i"
    proof (cases "i' = i")
      case True
      have p: "i - 1 < nT" "i - 1 \<noteq> i" using i by simp_all
      show ?thesis unfolding True
        using r_at[OF j i(2)] r_at[OF j p(1)] s_at[OF j p(1)] p(2) rnew_at[OF j] by simp
    next
      case False
      then have p: "i' - 1 < nT" "i' - 1 \<noteq> i" "i' \<le> i - 1" "i' \<noteq> i" using that i' by linarith+
      show ?thesis
        using r_at[OF j i'] r_at[OF j p(1)] s_at[OF j p(1)] p old[OF j i'] that by simp
    qed
  qed
  then show ?thesis using S' R' unfolding rate_inv_def by blast
qed

lemma rate_inv_zeros: "rate_inv dt N nT 0 (zeros N nT) (zeros N nT)"
  by (simp add: rate_inv_def shape_ok_zeros nth_zeros)

lemma euler_loop_rates:
  fixes x :: "'a::{zero,one,plus,times,uminus,ord} list"
  assumes "euler_loop x F b T dt [1..<Suc k] (V0, s0, r0) = Inr (V, s, r)"
    and "rate_inv dt (length F) nT 0 s0 r0" and "k < nT"
  shows "rate_inv dt (length F) nT k s r"
  using assms(1,3)
proof (induction k arbitrary: V s r)
  case 0
  then show ?case using assms(2) by simp
next
  case (Suc k)
  have "[1..<Suc (Suc k)] = [1..<Suc k] @ [Suc k]" by simp
  then have "ebind (euler_loop x F b T dt [1..<Suc k] (V0, s0, r0)) (euler_loop x F b T dt [Suc k]) = Inr (V, s, r)"
    using Suc.prems(1) by (simp only: euler_loop_append)
  then obtain V1 s1 r1 where l: "euler_loop x F b T dt [1..<Suc k] (V0, s0, r0) = Inr (V1, s1, r1)"
    and st: "euler_step x F b T dt (Suc k) (V1, s1, r1) = Inr (V, s, r)"
    by (auto simp: ebind_eq_Inr)
  from Suc.IH[OF l] Suc.prems(2) have "rate_inv dt (length F) nT (Suc k - 1) s1 r1" by simp
  from euler_step_rates[OF st this] Suc.prems(2) show ?case by simp
qed

lemma run_LIF_network_rates:
  fixes x :: "'a::{zero,one,plus,times,uminus,ord} list"
  assumes "run_LIF_network x F b T dt = Inr (V, s, r)"
  shows "rate_inv dt (length F) (length x) (length x - 1) s r"
proof (cases "length x")
  case 0
  then show ?thesis using assms rate_inv_zeros[of dt "length F" 0]
    by (auto simp: run_LIF_network_def Let_def)
next
  case (Suc n)
  then have "euler_loop x F b T dt [1..<Suc n] (zeros (length F) (length x), zeros (length F) (length x), zeros (length F) (length x)) = Inr (V, s, r)"
    using assms by (simp add: run_LIF_network_def Let_def)
  from euler_loop_rates[OF this rate_inv_zeros] Suc show ?thesis by simp
qed

lemma fl_unit_interval:
  assumes "0 < dt" and "dt \<le> (1::fl)"
  obtains d where "dt = Fin d" and "0 < d" and "d \<le> 1"
  using assms by (cases dt) (simp_all add: less_fl_def less_eq_fl_def)

lemma rnd_2_53: "rnd (2 ^ 53) = 2 ^ 53"
  using rnd_dyadic[of 1 53] by (simp add: powr_realpow[of 2 53, simplified])

lemma round_fl_count:
  assumes "0 \<le> x" and "x \<le> 2 ^ 53 + 1"
  shows "round_fl x = Fin (rnd x)" and "0 \<le> rnd x" and "rnd x \<le> 2 ^ 53"
proof -
  show lo: "0 \<le> rnd x" using assms(1) by (rule rnd_nonneg)
  show hi: "rnd x \<le> 2 ^ 53" using rnd_mono[OF assms(2)] by (simp only: rnd_above_2_53)
  have "\<bar>rnd x\<bar> < fl_huge" using lo hi fl_huge_pos(3) by simp
  then show "round_fl x = Fin (rnd x)" using assms(1) by (intro round_fl_Fin) simp_all
qed

lemma rate_step_nonneg:
  assumes d: "0 < d" "d \<le> 1" and a: "0 \<le> a" "a \<le> 2 ^ 53" "rnd a = a" and sp: "sp = 0 \<or> sp = (1::fl)"
  shows "\<exists>c. Fin a + Fin d * (- Fin a) + sp = Fin c \<and> 0 \<le> c \<and> c \<le> 2 ^ 53 \<and> rnd c = c"
proof -
  define m where "m = rnd (d * - a)"
  have "0 \<le> a * (1 - d)" using d a by simp
  then have "- a \<le> d * - a" "d * - a \<le> 0" using d a by (simp_all add: algebra_simps mult_nonneg_nonneg)
  from rnd_mono[OF this(1)] rnd_nonpos[OF this(2)] have m: "- a \<le> m" "m \<le> 0"
    using a(3) by (simp_all add: m_def)
  have am: "0 \<le> a + m" "a + m \<le> 2 ^ 53 + 1" using m a by simp_all
  note C = round_fl_count[OF am]
  have "rnd (a + m) \<le> rnd a" using m by (intro rnd_mono) simp
  have first: "Fin a + Fin d * (- Fin a) = Fin (rnd (a + m))"
  proof (cases "a = 0")
    case True
    then show ?thesis using d by (simp add: uminus_fl_def times_fl_def plus_fl_def signed_zero_def m_def)
  next
    case False
    have "d * a \<le> 1 * a" using d a by (intro mult_right_mono) simp_all
    then have "\<bar>d * - a\<bar> \<le> 2 ^ 53" using d a by (simp add: abs_mult)
    from round_fl_small[OF this] have M: "is_fin (round_fl (d * - a))" "fl_val (round_fl (d * - a)) = m"
      by (simp_all add: m_def)
    then have "Fin a + round_fl (d * - a) = round_fl (a + m)"
      using False by (cases "round_fl (d * - a)") (simp_all add: plus_fl_def)
    then show ?thesis using False d C(1) by (simp add: uminus_fl_def times_fl_def)
  qed
  have s0: "0 \<le> rnd (a + m) + 0" "rnd (a + m) + 0 \<le> 2 ^ 53 + 1"
    and s1: "0 \<le> rnd (a + m) + 1" "rnd (a + m) + 1 \<le> 2 ^ 53 + 1"
    using C(2,3) by simp_all
  from sp show ?thesis
  proof
    assume "sp = 0"
    then have "Fin a + Fin d * (- Fin a) + sp = Fin (rnd (rnd (a + m)))"
      using round_fl_count(1)[OF s0] first by (simp add: plus_fl_def)
    then show ?thesis using C(2,3) by simp
  next
    assume "sp = 1"
    then have "Fin a + Fin d * (- Fin a) + sp = Fin (rnd (rnd (a + m) + 1))"
      using round_fl_count(1)[OF s1] first by (simp add: plus_fl_def)
    then show ?thesis using round_fl_count(2,3)[OF s1] by simp
  qed
qed

lemma rate_inv_rates_nonneg:
  fixes r :: "fl list list"
  assumes inv: "rate_inv (Fin d) N nT k s r" and d: "0 < d" "d \<le> 1"
    and j: "j < N" and i: "i < nT"
  shows "\<exists>a. r ! j ! i = Fin a \<and> 0 \<le> a \<and> a \<le> 2 ^ 53 \<and> rnd a = a"
  using i
proof (induction i)
  case 0
  then show ?case using inv j unfolding rate_inv_def by auto
next
  case (Suc i)
  then obtain a where a: "r ! j ! i = Fin a" "0 \<le> a" "a \<le> 2 ^ 53" "rnd a = a" by auto
  have all: "(s ! j ! i' = 0 \<or> s ! j ! i' = 1) \<and>
        (i' = 0 \<or> k < i' \<longrightarrow> s ! j ! i' = 0 \<and> r ! j ! i' = 0) \<and>
        (1 \<le> i' \<and> i' \<le> k \<longrightarrow> r ! j ! i' = r ! j ! (i' - 1) + Fin d * (- (r ! j ! (i' - 1))) + s ! j ! (i' - 1))"
    if "i' < nT" for i'
    using inv j that unfolding rate_inv_def by blast
  have sp: "s ! j ! i = 0 \<or> s ! j ! i = 1" using all[of i] Suc.prems by simp
  show ?case
  proof (cases "Suc i \<le> k")
    case True
    then have "r ! j ! Suc i = r ! j ! i + Fin d * (- (r ! j ! i)) + s ! j ! i"
      using all[of "Suc i"] Suc.prems by simp
    with rate_step_nonneg[OF d a(2,3,4) sp] a(1) show ?thesis by simp
  next
    case False
    then have "r ! j ! Suc i = 0" using all[of "Suc i"] Suc.prems by simp
    then show ?thesis by simp
  qed
qed

lemma overflow_product: "Fin (1 / 2) * (- Fin 0 + Fin (fl_huge / 2) * Fin 2 + Fin 0) = PInf"
  unfolding times_fl_overflow by (simp add: plus_fl_def uminus_fl_def times_fl_def signed_inf_def)

lemma overflow_update: "Fin 0 + Fin (1 / 2) * (- Fin 0 + Fin (fl_huge / 2) * Fin 2 + Fin 0) = PInf"
  unfolding overflow_product by (simp add: plus_fl_def)

lemma rate_update_zero: "Fin 0 + Fin (1 / 2) * - Fin 0 + Fin 0 = Fin 0" "Fin 0 + Fin (1 / 2) * - Fin 0 + Fin 1 = Fin 1"
  by (simp_all add: plus_fl_def uminus_fl_def times_fl_def signed_zero_def)

lemma one_le_inf: "Fin 1 \<le> PInf"
  by (simp add: less_eq_fl_def)

lemma run_example_overflow:
  "run_LIF_network [Fin 2, Fin 2, Fin 2] [Fin (fl_huge / 2)] [Fin 0] [Fin 1] (Fin (1 / 2)) =
     Inr ([[Fin 0, Fin 0, Fin 0]], [[Fin 0, Fin 1, Fin 1]], [[Fin 0, Fin 0, Fin 1]])"
  by (simp add: run_LIF_network_def Let_def zeros_def upt_conv_Cons euler_step_def col_def broadcast2_def
      assign_col_def bool_index_def assign_at_def overflow_update rate_update_zero one_le_inf)

lemma run_example_fl:
  "run_LIF_network [Fin 4, NaN, Fin 4, PInf] [Fin (1 / 2), Fin (1 / 4)] [Fin 0, Fin 0] [Fin 1, Fin 1] (Fin (1 / 2)) =
     Inr ([[Fin 0, Fin 0, NaN, NaN], [Fin 0, Fin (1 / 2), NaN, NaN]],
          [[Fin 0, Fin 1, Fin 0, Fin 0], [Fin 0, Fin 0, Fin 0, Fin 0]],
          [[Fin 0, Fin 0, Fin 1, Fin (1 / 2)], [Fin 0, Fin 0, Fin 0, Fin 0]])"
  by (simp add: run_LIF_network_def Let_def zeros_def upt_conv_Cons euler_step_def col_def broadcast2_def
      assign_col_def bool_index_def assign_at_def plus_fl_def times_fl_def uminus_fl_def less_eq_fl_def
      signed_zero_def signed_inf_def)

text \<open>
  Claim C10. For \<open>0 < dt \<le> 1\<close>, every entry of the spike array a call returns is 0 or 1 and
  every entry of the filtered rate it returns is nonnegative, whatever floats (NaN,
  infinities and values that overflow or underflow included) and whatever lengths the
  input, the weights, the biases and the thresholds have. A call with \<open>F\<close>, \<open>b\<close>, \<open>T\<close> of one
  length does return.
\<close>

theorem spikes_binary_rates_nonnegative:
  fixes x :: "fl list"
  assumes "0 < dt" and "dt \<le> 1"
  shows "(length b = length F \<and> length T = length F \<longrightarrow>
            (\<exists>V s r. run_LIF_network x F b T dt = Inr (V, s, r))) \<and>
         (\<forall>V s r. run_LIF_network x F b T dt = Inr (V, s, r) \<longrightarrow>
            (\<forall>j < length F. \<forall>i < length x. (s ! j ! i = 0 \<or> s ! j ! i = 1) \<and> 0 \<le> r ! j ! i))"
proof -
  from fl_unit_interval[OF assms] obtain d where d: "dt = Fin d" "0 < d" "d \<le> 1" by blast
  have returns: "\<exists>V s r. run_LIF_network x F b T dt = Inr (V, s, r)"
    if "length b = length F \<and> length T = length F"
    using run_LIF_network_inv[of b F T x dt] that by blast
  have entries: "(s ! j ! i = 0 \<or> s ! j ! i = 1) \<and> 0 \<le> r ! j ! i"
    if run: "run_LIF_network x F b T dt = Inr (V, s, r)" and j: "j < length F" and i: "i < length x"
    for V s r j i
  proof -
    from run_LIF_network_rates[OF run] have inv: "rate_inv (Fin d) (length F) (length x) (length x - 1) s r"
      by (simp only: d(1))
    from rate_inv_rates_nonneg[OF inv d(2,3) j i]
    obtain a where "r ! j ! i = Fin a" "0 \<le> a" by blast
    then have "0 \<le> r ! j ! i" by (simp add: less_eq_fl_def)
    moreover have "s ! j ! i = 0 \<or> s ! j ! i = 1" using inv j i unfolding rate_inv_def by blast
    ultimately show ?thesis by simp
  qed
  show ?thesis using returns entries by blast
qed

theorem spikes_binary_rates_nonnegative_witness:
  "0 < Fin (1 / 2) \<and> Fin (1 / 2) \<le> 1 \<and>
   length [Fin 0, Fin 0] = length [Fin (1 / 2), Fin (1 / 4)] \<and>
   length [Fin 1, Fin 1] = length [Fin (1 / 2), Fin (1 / 4)] \<and>
   (\<exists>V s r. run_LIF_network [Fin 4, NaN, Fin 4, PInf] [Fin (1 / 2), Fin (1 / 4)] [Fin 0, Fin 0] [Fin 1, Fin 1] (Fin (1 / 2)) = Inr (V, s, r) \<and>
      s = [[Fin 0, Fin 1, Fin 0, Fin 0], [Fin 0, Fin 0, Fin 0, Fin 0]] \<and>
      r = [[Fin 0, Fin 0, Fin 1, Fin (1 / 2)], [Fin 0, Fin 0, Fin 0, Fin 0]] \<and>
      s ! 0 ! 1 = 1 \<and> s ! 0 ! 2 = 0 \<and> 0 \<le> r ! 0 ! 3) \<and>
   (\<exists>V s r. run_LIF_network [Fin 2, Fin 2, Fin 2] [Fin (fl_huge / 2)] [Fin 0] [Fin 1] (Fin (1 / 2)) = Inr (V, s, r) \<and>
      s = [[Fin 0, Fin 1, Fin 1]] \<and> r = [[Fin 0, Fin 0, Fin 1]] \<and> s ! 0 ! 2 = 1 \<and> 0 \<le> r ! 0 ! 2)"
  using spikes_binary_rates_nonnegative[of "Fin (1 / 2)" "[Fin 0, Fin 0]" "[Fin (1 / 2), Fin (1 / 4)]"
      "[Fin 1, Fin 1]" "[Fin 4, NaN, Fin 4, PInf]"]
    spikes_binary_rates_nonnegative[of "Fin (1 / 2)" "[Fin 0]" "[Fin (fl_huge / 2)]" "[Fin 1]"
      "[Fin 2, Fin 2, Fin 2]"]
  by (simp add: run_example_fl run_example_overflow less_fl_def less_eq_fl_def)

section \<open>Arguments of other shapes\<close>

lemma bc_dim_big:
  assumes "2 \<le> K"
  shows "bc_dim K d = Some e \<Longrightarrow> e = K" and "bc_dim d K = Some e \<Longrightarrow> e = K"
  using assms by (auto simp: bc_dim_def split: if_splits)

lemma bc_rev_keeps_big:
  assumes "2 \<le> K" and "bc_rev [d, K] cs = Some ds"
  shows "\<exists>d' rest. ds = d' # K # rest"
proof (cases cs)
  case Nil
  with assms show ?thesis by auto
next
  case (Cons c cs')
  show ?thesis
  proof (cases cs')
    case Nil
    with Cons assms show ?thesis by (auto split: option.splits)
  next
    case (Cons c' cs'')
    with \<open>cs = c # cs'\<close> assms show ?thesis
      by (auto split: option.splits dest: bc_dim_big(1))
  qed
qed

lemma strip_ones_long:
  assumes "K \<noteq> 1"
  shows "2 \<le> length (strip_ones 1 (ys @ [K, d]))"
  using assms by (induction ys) auto

lemma setitem_shapes_matrix:
  assumes "2 \<le> K"
  shows "setitem_shapes [K] (rev (d # K # rest)) = Inl ValueError"
proof -
  have "2 \<le> length (strip_ones 1 (rev rest @ [K, d]))"
    using strip_ones_long[of K "rev rest" d] assms by simp
  then show ?thesis by (simp add: setitem_shapes_def Let_def)
qed

lemma step_shapes_matrix_input:
  assumes K: "2 \<le> K"
  shows "step_shapes [K, nT] [K, N] b T ([K, K], [K, K], [K, K]) = Inl ValueError"
proof (cases "bc_dim N nT")
  case None
  then show ?thesis by (simp add: step_shapes_def broadcast_shapes_def)
next
  case (Some d1)
  then have t1: "broadcast_shapes [K, N] (tl [K, nT]) = Inr [K, d1]"
    by (simp add: broadcast_shapes_def)
  show ?thesis
  proof (cases "bc_dim K d1")
    case None
    then show ?thesis using t1 by (simp add: step_shapes_def broadcast_shapes_def)
  next
    case (Some d2)
    then have t2: "broadcast_shapes [K] [K, d1] = Inr [K, d2]"
      by (simp add: broadcast_shapes_def)
    show ?thesis
    proof (cases "bc_rev [d2, K] (rev b)")
      case None
      then show ?thesis using t1 t2 by (simp add: step_shapes_def broadcast_shapes_def)
    next
      case (Some ds)
      from bc_rev_keeps_big[OF K Some] obtain d3 rest where ds: "ds = d3 # K # rest" by blast
      have t3: "broadcast_shapes [K, d2] b = Inr (rev (d3 # K # rest))"
        using Some ds by (simp add: broadcast_shapes_def)
      show ?thesis
      proof (cases "bc_dim K d3")
        case None
        then have "broadcast_shapes [K] (rev (d3 # K # rest)) = Inl ValueError"
          by (simp add: broadcast_shapes_def)
        then show ?thesis using t1 t2 t3 by (simp add: step_shapes_def)
      next
        case (Some d4)
        then have "broadcast_shapes [K] (rev (d3 # K # rest)) = Inr (rev (d4 # K # rest))"
          by (simp add: broadcast_shapes_def)
        then show ?thesis
          using t1 t2 t3 setitem_shapes_matrix[OF K, of d4 rest] by (simp add: step_shapes_def)
      qed
    qed
  qed
qed

lemma broadcast_shapes_same [simp]: "broadcast_shapes [n] [n] = Inr [n]"
  by (simp add: broadcast_shapes_def bc_dim_def)

lemma setitem_shapes_same [simp]: "setitem_shapes [n] [n] = Inr ()"
  by (simp add: setitem_shapes_def)

lemma step_shapes_documented:
  "step_shapes [nT] [N] [N] [N] ([N, nT], [N, nT], [N, nT]) = Inr ([N, nT], [N, nT], [N, nT])"
  by (simp add: step_shapes_def broadcast_shapes_def bc_dim_def setitem_shapes_def)

lemma loop_shapes_fixed:
  assumes "step_shapes x F b T st = Inr st"
  shows "loop_shapes x F b T is st = Inr st"
  using assms by (induction "is") simp_all

text \<open>
  Claim C7 says that an input of shape \<open>K \<times> nT\<close> with weights of shape \<open>K \<times> N\<close> gives three
  \<open>N \<times> nT\<close> arrays. For \<open>K = 2\<close>, \<open>nT = 3\<close>, \<open>N = 2\<close> the product \<^verbatim>\<open>F*x[i-1]\<close> of the first
  step cannot be formed; for \<open>K = 2\<close>, \<open>nT = 2\<close>, \<open>N = 2\<close> it can, and the assignment of the
  two-dimensional update to the column \<^verbatim>\<open>V[:, i]\<close> raises. (\<^verbatim>\<open>len(x)\<close> is \<open>K\<close>, not \<open>nT\<close>.)
\<close>

theorem matrix_input_counterexample:
  "run_LIF_network_shapes [2, 3] [2, 2] [2] [2] = Inl ValueError \<and>
   run_LIF_network_shapes [2, 2] [2, 2] [2] [2] = Inl ValueError"
  by code_simp

text \<open>
  Claim C7, amended. \<^verbatim>\<open>run_LIF_network\<close> takes a one-dimensional input: with \<open>x\<close> of length
  \<open>nT\<close> and \<open>F\<close>, \<open>b\<close>, \<open>T\<close> of length \<open>N\<close> it returns three arrays of shape \<open>(N, nT)\<close> (the
  per-step rules are those of C2, C3 and C4). With an input of shape \<open>K \<times> nT\<close> and weights of
  shape \<open>K \<times> N\<close>, \<open>K \<ge> 2\<close>, the call raises ValueError in the first step, whatever the shapes
  of \<open>b\<close> and \<open>T\<close>.
\<close>

theorem matrix_input_rejected:
  "(2 \<le> K \<longrightarrow> run_LIF_network_shapes [K, nT] [K, N] b T = Inl ValueError) \<and>
   run_LIF_network_shapes [nT] [N] [N] [N] = Inr ([N, nT], [N, nT], [N, nT])"
proof -
  have "run_LIF_network_shapes [K, nT] [K, N] b T = Inl ValueError" if K: "2 \<le> K"
  proof -
    have "[1..<K] = 1 # [Suc 1..<K]" using K by (intro upt_conv_Cons) simp
    then show ?thesis
      using step_shapes_matrix_input[OF K] by (simp add: run_LIF_network_shapes_def)
  qed
  moreover have "run_LIF_network_shapes [nT] [N] [N] [N] = Inr ([N, nT], [N, nT], [N, nT])"
    using loop_shapes_fixed[OF step_shapes_documented] by (simp add: run_LIF_network_shapes_def)
  ultimately show ?thesis by blast
qed

theorem matrix_input_rejected_witness:
  "2 \<le> (3::nat) \<and> run_LIF_network_shapes [3, 100] [3, 10] [10] [10] = Inl ValueError \<and>
   run_LIF_network_shapes [100] [10] [10] [10] = Inr ([10, 100], [10, 100], [10, 100])"
  using matrix_input_rejected[of 3 100 10 "[10]" "[10]"] by simp

text \<open>
  On one-dimensional arguments the simulator on shapes and the simulator agree: the same
  error, or the shapes \<open>(N, nT)\<close> of the three results.
\<close>

lemma step_shapes_1d:
  "step_shapes [nT] [N] [Lb] [Lt] ([N, nT], [N, nT], [N, nT]) =
     (if Lb \<noteq> N \<and> Lb \<noteq> 1 then Inl ValueError
      else if Lt \<noteq> N \<and> Lt \<noteq> 1 \<and> \<not> (N = 1 \<and> Lt = 0) then Inl (if N = 1 then IndexError else ValueError)
      else Inr ([N, nT], [N, nT], [N, nT]))"
  by (auto simp: step_shapes_def broadcast_shapes_def bc_dim_def setitem_shapes_def)

lemma run_LIF_network_shapes_1d:
  "run_LIF_network_shapes [nT] [N] [Lb] [Lt] =
     (if nT \<le> 1 then Inr ([N, nT], [N, nT], [N, nT])
      else if Lb \<noteq> N \<and> Lb \<noteq> 1 then Inl ValueError
      else if Lt \<noteq> N \<and> Lt \<noteq> 1 \<and> \<not> (N = 1 \<and> Lt = 0) then Inl (if N = 1 then IndexError else ValueError)
      else Inr ([N, nT], [N, nT], [N, nT]))"
proof (cases "nT \<le> 1")
  case True
  then show ?thesis by (simp add: run_LIF_network_shapes_def)
next
  case False
  then have u: "[1..<nT] = 1 # [Suc 1..<nT]" by (intro upt_conv_Cons) simp
  show ?thesis
  proof (cases "(Lb = N \<or> Lb = 1) \<and> (Lt = N \<or> Lt = 1 \<or> (N = 1 \<and> Lt = 0))")
    case True
    then have "step_shapes [nT] [N] [Lb] [Lt] ([N, nT], [N, nT], [N, nT]) = Inr ([N, nT], [N, nT], [N, nT])"
      by (simp only: step_shapes_1d) auto
    from loop_shapes_fixed[OF this] show ?thesis using False True
      by (auto simp: run_LIF_network_shapes_def)
  next
    case bad: False
    then show ?thesis using False u
      by (auto simp: run_LIF_network_shapes_def step_shapes_1d)
  qed
qed

lemma shapes_agree_1d:
  fixes x :: "'a::{zero,one,plus,times,uminus,ord} list"
  shows "run_LIF_network_shapes [length x] [length F] [length b] [length T] =
     (case run_LIF_network x F b T dt of Inl e \<Rightarrow> Inl e
      | Inr out \<Rightarrow> Inr ([length F, length x], [length F, length x], [length F, length x]))"
proof -
  consider (short) "length x \<le> 1"
    | (bias) "2 \<le> length x" "length b \<noteq> length F" "length b \<noteq> 1"
    | (threshold) "2 \<le> length x" "length b = length F \<or> length b = 1" "length T \<noteq> length F" "length T \<noteq> 1"
        "length F = 1 \<longrightarrow> T \<noteq> []"
    | (empty) "2 \<le> length x" "length b = length F \<or> length b = 1" "length F = 1" "T = []"
    | (ok) "2 \<le> length x" "length b = length F \<or> length b = 1" "length T = length F \<or> length T = 1"
    using not_less_eq_eq by (cases "length x \<le> 1") (simp, fastforce)
  then show ?thesis
  proof cases
    case short
    then show ?thesis
      by (simp add: run_LIF_network_short run_LIF_network_shapes_1d)
  next
    case bias
    then show ?thesis
      using run_LIF_network_bad_bias[OF bias, of T dt]
      by (simp add: run_LIF_network_shapes_1d)
  next
    case threshold
    then show ?thesis
      using run_LIF_network_bad_threshold[OF threshold, of dt]
      by (auto simp: run_LIF_network_shapes_1d)
  next
    case empty
    from run_LIF_network_no_threshold[OF empty(2,3), of x dt]
    obtain out where "run_LIF_network x F b T dt = Inr out" using empty(4) by blast
    then show ?thesis using empty by (simp add: run_LIF_network_shapes_1d)
  next
    case ok
    from run_LIF_network_inv_bc[OF ok(2,3), of x dt]
    obtain V s r where "run_LIF_network x F b T dt = Inr (V, s, r)" by blast
    then show ?thesis using ok by (auto simp: run_LIF_network_shapes_1d)
  qed
qed

section \<open>The decoder fit: invertibility and optimality\<close>

text \<open>
  A symmetric positive definite matrix has an inverse: by induction on its size, eliminating
  the last row and column.
\<close>

lemma quad_Suc:
  "quad (Suc n) A v =
     quad n A v + v n * (\<Sum>j<n. A n j * v j) + v n * (\<Sum>i<n. A i n * v i) + A n n * v n * v n"
proof -
  have 1: "(\<Sum>i<n. v i * A i n * v n) = v n * (\<Sum>i<n. A i n * v i)"
    by (simp add: sum_distrib_left mult_ac)
  have 2: "(\<Sum>j<n. v n * A n j * v j) = v n * (\<Sum>j<n. A n j * v j)"
    by (simp add: sum_distrib_left mult_ac)
  show ?thesis by (simp add: quad_def sum.distrib 1 2)
qed

lemma pos_defD:
  assumes "pos_def n A" and "i < n" and "v i \<noteq> 0"
  shows "0 < quad n A v"
proof -
  have "\<forall>v. (\<exists>i<n. v i \<noteq> 0) \<longrightarrow> 0 < quad n A v"
    using assms(1) by (simp add: pos_def_def)
  then have "(\<exists>i<n. v i \<noteq> 0) \<longrightarrow> 0 < quad n A v" by (rule spec)
  moreover have "\<exists>i<n. v i \<noteq> 0" using assms(2,3) by (intro exI[of _ i]) simp
  ultimately show ?thesis by (rule mp)
qed

lemma pos_def_sym: "pos_def n A \<Longrightarrow> i < n \<Longrightarrow> j < n \<Longrightarrow> A i j = A j i"
  by (simp add: pos_def_def)

lemma pos_def_diag:
  assumes "pos_def (Suc n) A"
  shows "0 < A n n"
proof -
  define e where "e = (\<lambda>i. if i = n then 1 else (0::real))"
  have en: "e n = 1" and e0: "\<And>i. i < n \<Longrightarrow> e i = 0" by (simp_all add: e_def)
  have "0 < quad (Suc n) A e"
    using pos_defD[OF assms, of n e] en by simp
  moreover have "quad n A e = 0" by (simp add: quad_def e0)
  moreover have "(\<Sum>j<n. A n j * e j) = 0" "(\<Sum>i<n. A i n * e i) = 0" by (simp_all add: e0)
  ultimately show ?thesis by (simp add: quad_Suc en)
qed

lemma quad_schur:
  assumes sym: "\<forall>i<Suc n. \<forall>j<Suc n. A i j = A j i" and a: "A n n \<noteq> 0"
  shows "quad n (schur n A) u =
         quad (Suc n) A (\<lambda>i. if i < n then u i else - (\<Sum>j<n. A n j * u j) / A n n)"
proof -
  define t where "t = (\<Sum>j<n. A n j * u j)"
  define a where "a = A n n"
  let ?v = "\<lambda>i. if i < n then u i else - t / a"
  have a0: "a \<noteq> 0" using assms(2) by (simp add: a_def)
  have t': "(\<Sum>i<n. A i n * u i) = t"
    unfolding t_def using sym by (intro sum.cong) auto
  have q: "quad n A ?v = quad n A u" by (simp add: quad_def)
  have s1: "(\<Sum>j<n. A n j * ?v j) = t" by (simp add: t_def)
  have s2: "(\<Sum>i<n. A i n * ?v i) = t" using t' by simp
  have "quad (Suc n) A ?v = quad n A u + (- t / a) * t + (- t / a) * t + a * (- t / a) * (- t / a)"
    unfolding quad_Suc q s1 s2 by (simp add: a_def)
  also have "\<dots> = quad n A u - t * t / a" using a0 by (simp add: field_simps)
  finally have lhs: "quad (Suc n) A ?v = quad n A u - t * t / a" .
  have "quad n (schur n A) u = (\<Sum>i<n. \<Sum>j<n. u i * A i j * u j - (u i * A i n) * (A n j * u j) / a)"
    by (simp add: quad_def schur_def a_def algebra_simps diff_divide_distrib)
  also have "\<dots> = quad n A u - (\<Sum>i<n. \<Sum>j<n. (u i * A i n) * (A n j * u j) / a)"
    by (simp add: quad_def sum_subtractf)
  also have "(\<Sum>i<n. \<Sum>j<n. (u i * A i n) * (A n j * u j) / a) = (\<Sum>i<n. u i * A i n) * t / a"
    unfolding t_def sum_product by (simp add: sum_divide_distrib)
  also have "(\<Sum>i<n. u i * A i n) = t" using t' by (simp add: mult.commute)
  finally have "quad n (schur n A) u = quad n A u - t * t / a" .
  with lhs show ?thesis unfolding t_def a_def by simp
qed

lemma pos_def_schur:
  assumes "pos_def (Suc n) A"
  shows "pos_def n (schur n A)"
proof -
  have sym: "\<forall>i<Suc n. \<forall>j<Suc n. A i j = A j i" using pos_def_sym[OF assms] by blast
  have a: "A n n \<noteq> 0" using pos_def_diag[OF assms] by simp
  have "schur n A i j = schur n A j i" if "i < n" "j < n" for i j
    using pos_def_sym[OF assms, of i j] pos_def_sym[OF assms, of i n] pos_def_sym[OF assms, of n j] that
    by (simp add: schur_def)
  moreover have "0 < quad n (schur n A) u" if "\<exists>i<n. u i \<noteq> 0" for u
  proof -
    define v where "v = (\<lambda>i. if i < n then u i else - (\<Sum>j<n. A n j * u j) / A n n)"
    from that obtain i where i: "i < n" "u i \<noteq> 0" by blast
    then have "i < Suc n" "v i \<noteq> 0" by (simp_all add: v_def)
    from pos_defD[of "Suc n" A i v, OF assms this] have "0 < quad (Suc n) A v" .
    then show ?thesis unfolding v_def by (simp only: quad_schur[OF sym a])
  qed
  ultimately show ?thesis unfolding pos_def_def by blast
qed

lemma pos_def_solvable:
  "pos_def n A \<Longrightarrow> \<exists>v. \<forall>i<n. (\<Sum>j<n. A i j * v j) = w i"
proof (induction n arbitrary: A w)
  case 0
  show ?case by simp
next
  case (Suc n)
  define a where "a = A n n"
  have a: "0 < a" using pos_def_diag[OF Suc.prems] by (simp add: a_def)
  define w' where "w' = (\<lambda>i. w i - A i n * w n / a)"
  from Suc.IH[OF pos_def_schur[OF Suc.prems], of w']
  obtain u where u: "\<forall>i<n. (\<Sum>j<n. schur n A i j * u j) = w' i" by blast
  define t where "t = (\<Sum>j<n. A n j * u j)"
  define v where "v = (\<lambda>i. if i < n then u i else (w n - t) / a)"
  have vu: "(\<Sum>j<n. A i j * v j) = (\<Sum>j<n. A i j * u j)" for i by (simp add: v_def)
  have vn: "v n = (w n - t) / a" by (simp add: v_def)
  have "(\<Sum>j<Suc n. A i j * v j) = w i" if "i < Suc n" for i
  proof (cases "i = n")
    case True
    have "(\<Sum>j<Suc n. A n j * v j) = t + a * ((w n - t) / a)"
      by (simp add: vu vn t_def a_def)
    also have "\<dots> = w n" using a by simp
    finally show ?thesis using True by simp
  next
    case False
    then have i: "i < n" using that by simp
    have "(\<Sum>j<n. schur n A i j * u j) = (\<Sum>j<n. A i j * u j - (A i n / a) * (A n j * u j))"
      by (simp add: schur_def a_def algebra_simps)
    also have "\<dots> = (\<Sum>j<n. A i j * u j) - (A i n / a) * t"
      by (simp add: sum_subtractf sum_distrib_left t_def)
    finally have "(\<Sum>j<n. A i j * u j) - (A i n / a) * t = w i - A i n * w n / a"
      using u i by (simp add: w'_def)
    moreover have "A i n * ((w n - t) / a) = A i n * w n / a - (A i n / a) * t"
      by (simp add: diff_divide_distrib right_diff_distrib)
    ultimately have "(\<Sum>j<n. A i j * u j) + A i n * ((w n - t) / a) = w i"
      by linarith
    then show ?thesis by (simp add: vu vn)
  qed
  then show ?case by blast
qed

lemma quad_alt: "quad n A v = (\<Sum>i<n. v i * (\<Sum>j<n. A i j * v j))"
  by (simp add: quad_def sum_distrib_left mult.assoc)

lemma pos_def_kernel:
  assumes "pos_def n A" and "\<forall>i<n. (\<Sum>j<n. A i j * v j) = 0" and "i < n"
  shows "v i = 0"
proof (rule ccontr)
  assume "v i \<noteq> 0"
  from pos_defD[of n A i v, OF assms(1,3) this] have "0 < quad n A v" .
  moreover have "quad n A v = 0" using assms(2) by (simp add: quad_alt)
  ultimately show False by simp
qed

lemma sum_delta_lessThan:
  fixes k n :: nat and f :: "nat \<Rightarrow> real"
  assumes k: "k < n"
  shows "(\<Sum>l<n. (if k = l then 1 else 0) * f l) = f k"
    and "(\<Sum>l<n. f l * (if l = k then 1 else 0)) = f k"
proof -
  have "(\<Sum>l<n. (if k = l then 1 else 0) * f l) = (\<Sum>l<n. if l = k then f l else 0)"
    by (intro sum.cong) auto
  also have "\<dots> = f k" using k by simp
  finally show "(\<Sum>l<n. (if k = l then 1 else 0) * f l) = f k" .
  have "(\<Sum>l<n. f l * (if l = k then 1 else 0)) = (\<Sum>l<n. if l = k then f l else 0)"
    by (intro sum.cong) auto
  also have "\<dots> = f k" using k by simp
  finally show "(\<Sum>l<n. f l * (if l = k then 1 else 0)) = f k" .
qed

lemma pos_def_invertible:
  assumes "pos_def n A"
  shows "\<exists>B. inverse_of n A B"
proof -
  have "\<forall>j. \<exists>v. \<forall>i<n. (\<Sum>l<n. A i l * v l) = (if i = j then 1 else 0)"
    by (intro allI pos_def_solvable[OF assms])
  then have "\<exists>f. \<forall>j. \<forall>i<n. (\<Sum>l<n. A i l * f j l) = (if i = j then 1 else 0)"
    by (rule choice)
  then obtain f where f: "\<forall>j. \<forall>i<n. (\<Sum>l<n. A i l * f j l) = (if i = j then 1 else 0)" ..
  define B where "B = (\<lambda>l j. f j l)"
  have right: "(\<Sum>l<n. A i l * B l j) = (if i = j then 1 else 0)" if "i < n" for i j
    using f that by (simp add: B_def)
  have left: "(\<Sum>l<n. B i l * A l j) = (if i = j then 1 else 0)" if i: "i < n" and j: "j < n" for i j
  proof -
    define c where "c = (\<lambda>i. (\<Sum>l<n. B i l * A l j) - (if i = j then 1 else 0))"
    have Ac: "(\<Sum>i<n. A k i * c i) = 0" if k: "k < n" for k
    proof -
      have "(\<Sum>i<n. A k i * (\<Sum>l<n. B i l * A l j)) = (\<Sum>i<n. \<Sum>l<n. (A k i * B i l) * A l j)"
        by (simp add: sum_distrib_left mult.assoc)
      also have "\<dots> = (\<Sum>l<n. \<Sum>i<n. (A k i * B i l) * A l j)" by (rule sum.swap)
      also have "\<dots> = (\<Sum>l<n. (\<Sum>i<n. A k i * B i l) * A l j)" by (simp add: sum_distrib_right)
      also have "\<dots> = (\<Sum>l<n. (if k = l then 1 else 0) * A l j)" using right[OF k] by simp
      also have "\<dots> = A k j" using k by (rule sum_delta_lessThan(1))
      finally have 1: "(\<Sum>i<n. A k i * (\<Sum>l<n. B i l * A l j)) = A k j" .
      have 2: "(\<Sum>i<n. A k i * (if i = j then 1 else 0)) = A k j"
        using j by (rule sum_delta_lessThan(2))
      have "(\<Sum>i<n. A k i * c i) = (\<Sum>i<n. A k i * (\<Sum>l<n. B i l * A l j)) - (\<Sum>i<n. A k i * (if i = j then 1 else 0))"
        by (simp add: c_def right_diff_distrib sum_subtractf)
      then show ?thesis using 1 2 by simp
    qed
    have "\<forall>k<n. (\<Sum>i<n. A k i * c i) = 0" using Ac by simp
    then have "c i = 0" using i by (rule pos_def_kernel[OF assms])
    then show ?thesis by (simp add: c_def)
  qed
  show ?thesis unfolding inverse_of_def by (intro exI[of _ B]) (simp add: right left)
qed

lemma quad_gram:
  "quad N (gram R n lam) v = (\<Sum>k<n. (\<Sum>i<N. v i * R i k)\<^sup>2) + lam * (\<Sum>i<N. (v i)\<^sup>2)"
proof -
  have split: "quad N (gram R n lam) v =
      (\<Sum>i<N. \<Sum>j<N. \<Sum>k<n. (v i * R i k) * (v j * R j k)) + (\<Sum>i<N. \<Sum>j<N. v i * (if i = j then lam else 0) * v j)"
    by (simp add: quad_def gram_def distrib_left distrib_right sum.distrib sum_distrib_left sum_distrib_right mult_ac)
  have "(\<Sum>i<N. \<Sum>j<N. \<Sum>k<n. (v i * R i k) * (v j * R j k)) = (\<Sum>i<N. \<Sum>k<n. \<Sum>j<N. (v i * R i k) * (v j * R j k))"
    by (intro sum.cong refl sum.swap)
  also have "\<dots> = (\<Sum>k<n. \<Sum>i<N. \<Sum>j<N. (v i * R i k) * (v j * R j k))" by (rule sum.swap)
  also have "\<dots> = (\<Sum>k<n. (\<Sum>i<N. v i * R i k) * (\<Sum>j<N. v j * R j k))"
    by (simp only: sum_product)
  also have "\<dots> = (\<Sum>k<n. (\<Sum>i<N. v i * R i k)\<^sup>2)" by (simp only: power2_eq_square)
  finally have first: "(\<Sum>i<N. \<Sum>j<N. \<Sum>k<n. (v i * R i k) * (v j * R j k)) = (\<Sum>k<n. (\<Sum>i<N. v i * R i k)\<^sup>2)" .
  have "(\<Sum>j<N. v i * (if i = j then lam else 0) * v j) = lam * (v i)\<^sup>2" if "i < N" for i
  proof -
    have "(\<Sum>j<N. v i * (if i = j then lam else 0) * v j) = (\<Sum>j<N. if j = i then v i * lam * v j else 0)"
      by (intro sum.cong) auto
    also have "\<dots> = v i * lam * v i" using that by simp
    finally show ?thesis by (simp add: power2_eq_square)
  qed
  then have "(\<Sum>i<N. \<Sum>j<N. v i * (if i = j then lam else 0) * v j) = (\<Sum>i<N. lam * (v i)\<^sup>2)"
    by (intro sum.cong) auto
  also have "\<dots> = lam * (\<Sum>i<N. (v i)\<^sup>2)" by (simp only: sum_distrib_left)
  finally show ?thesis using split first by simp
qed

lemma pos_def_gram:
  assumes "0 < lam"
  shows "pos_def N (gram R n lam)"
proof -
  have "gram R n lam i j = gram R n lam j i" for i j
    by (simp add: gram_def mult.commute)
  moreover have "0 < quad N (gram R n lam) v" if "\<exists>i<N. v i \<noteq> 0" for v
  proof -
    from that obtain i where i: "i < N" "v i \<noteq> 0" by blast
    have "(v i)\<^sup>2 \<le> (\<Sum>i<N. (v i)\<^sup>2)"
      using i(1) by (intro member_le_sum) auto
    moreover have "0 < (v i)\<^sup>2" using i(2) by simp
    ultimately have "0 < (\<Sum>i<N. (v i)\<^sup>2)" by linarith
    then have "0 < lam * (\<Sum>i<N. (v i)\<^sup>2)" using assms by simp
    moreover have "0 \<le> (\<Sum>k<n. (\<Sum>i<N. v i * R i k)\<^sup>2)" by (intro sum_nonneg) simp
    ultimately show ?thesis by (simp only: quad_gram)
  qed
  ultimately show ?thesis unfolding pos_def_def by blast
qed

lemma decoder_normal_equations:
  assumes inv: "inverse_of N (gram R n lam) B" and j: "j < N"
  shows "(\<Sum>k<n. (Y p k - (\<Sum>l<N. decoder Y R B N n p l * R l k)) * R j k) = lam * decoder Y R B N n p j"
proof -
  define D where "D = decoder Y R B N n"
  define P where "P = (\<lambda>l. \<Sum>k<n. Y p k * R l k)"
  define G where "G = gram R n lam"
  have left: "(\<Sum>l<N. B i l * G l j) = (if i = j then 1 else 0)" if "i < N" for i
    using inv that j unfolding inverse_of_def G_def by blast
  have D: "D p l = (\<Sum>i<N. P i * B i l)" for l
    by (simp add: D_def decoder_def P_def)
  have "(\<Sum>l<N. D p l * G l j) = (\<Sum>l<N. \<Sum>i<N. P i * (B i l * G l j))"
    by (simp add: D sum_distrib_right mult.assoc)
  also have "\<dots> = (\<Sum>i<N. \<Sum>l<N. P i * (B i l * G l j))" by (rule sum.swap)
  also have "\<dots> = (\<Sum>i<N. P i * (\<Sum>l<N. B i l * G l j))" by (simp only: sum_distrib_left)
  also have "\<dots> = (\<Sum>i<N. P i * (if i = j then 1 else 0))"
    by (intro sum.cong refl) (simp add: left)
  also have "\<dots> = P j" using j by (rule sum_delta_lessThan(2))
  finally have DG: "(\<Sum>l<N. D p l * G l j) = P j" .
  have "(\<Sum>l<N. D p l * G l j) =
          (\<Sum>l<N. \<Sum>k<n. (D p l * R l k) * R j k) + (\<Sum>l<N. D p l * (if l = j then lam else 0))"
    by (simp add: G_def gram_def distrib_left sum.distrib sum_distrib_left mult.assoc)
  also have "(\<Sum>l<N. D p l * (if l = j then lam else 0)) = (\<Sum>l<N. if l = j then D p l * lam else 0)"
    by (intro sum.cong) auto
  also have "\<dots> = D p j * lam" using j by simp
  also have "(\<Sum>l<N. \<Sum>k<n. (D p l * R l k) * R j k) = (\<Sum>k<n. \<Sum>l<N. (D p l * R l k) * R j k)"
    by (rule sum.swap)
  also have "\<dots> = (\<Sum>k<n. (\<Sum>l<N. D p l * R l k) * R j k)" by (simp only: sum_distrib_right)
  finally have "(\<Sum>k<n. (\<Sum>l<N. D p l * R l k) * R j k) + D p j * lam = P j" using DG by simp
  moreover have "(\<Sum>k<n. (Y p k - (\<Sum>l<N. D p l * R l k)) * R j k) =
                 P j - (\<Sum>k<n. (\<Sum>l<N. D p l * R l k) * R j k)"
    by (simp add: P_def left_diff_distrib sum_subtractf)
  ultimately show ?thesis unfolding D_def by (simp add: mult.commute)
qed

lemma ridge_row:
  fixes d d' y :: "nat \<Rightarrow> real" and R :: matrix
  assumes ne: "\<forall>j<N. (\<Sum>k<n. (y k - (\<Sum>l<N. d l * R l k)) * R j k) = lam * d j"
  shows "(\<Sum>k<n. (y k - (\<Sum>j<N. d' j * R j k))\<^sup>2) + lam * (\<Sum>j<N. (d' j)\<^sup>2) =
         (\<Sum>k<n. (y k - (\<Sum>j<N. d j * R j k))\<^sup>2) + lam * (\<Sum>j<N. (d j)\<^sup>2) +
         ((\<Sum>k<n. (\<Sum>j<N. (d' j - d j) * R j k)\<^sup>2) + lam * (\<Sum>j<N. (d' j - d j)\<^sup>2))"
proof -
  define e where "e = (\<lambda>j. d' j - d j)"
  define res where "res = (\<lambda>k. y k - (\<Sum>j<N. d j * R j k))"
  define q where "q = (\<lambda>k. \<Sum>j<N. e j * R j k)"
  have d': "d' j = d j + e j" for j by (simp add: e_def)
  have res': "y k - (\<Sum>j<N. d' j * R j k) = res k - q k" for k
    by (simp add: res_def q_def d' distrib_right sum.distrib)
  have cross: "(\<Sum>k<n. res k * q k) = lam * (\<Sum>j<N. d j * e j)"
  proof -
    have "(\<Sum>k<n. res k * q k) = (\<Sum>k<n. \<Sum>j<N. e j * (res k * R j k))"
      by (simp add: q_def sum_distrib_left mult_ac)
    also have "\<dots> = (\<Sum>j<N. \<Sum>k<n. e j * (res k * R j k))" by (rule sum.swap)
    also have "\<dots> = (\<Sum>j<N. e j * (\<Sum>k<n. res k * R j k))" by (simp only: sum_distrib_left)
    also have "\<dots> = (\<Sum>j<N. e j * (lam * d j))"
      using ne by (intro sum.cong refl) (simp add: res_def)
    also have "\<dots> = lam * (\<Sum>j<N. d j * e j)" by (simp add: sum_distrib_left mult_ac)
    finally show ?thesis .
  qed
  have sq1: "(\<Sum>k<n. (res k - q k)\<^sup>2) = (\<Sum>k<n. (res k)\<^sup>2) - 2 * (\<Sum>k<n. res k * q k) + (\<Sum>k<n. (q k)\<^sup>2)"
    by (simp add: power2_diff sum.distrib sum_subtractf sum_distrib_left mult.assoc)
  have sq2: "(\<Sum>j<N. (d j + e j)\<^sup>2) = (\<Sum>j<N. (d j)\<^sup>2) + 2 * (\<Sum>j<N. d j * e j) + (\<Sum>j<N. (e j)\<^sup>2)"
    by (simp add: power2_sum sum.distrib sum_distrib_left mult.assoc)
  have "(\<Sum>k<n. (y k - (\<Sum>j<N. d' j * R j k))\<^sup>2) + lam * (\<Sum>j<N. (d' j)\<^sup>2) =
        (\<Sum>k<n. (res k - q k)\<^sup>2) + lam * (\<Sum>j<N. (d j + e j)\<^sup>2)"
    unfolding res' by (simp only: d')
  also have "\<dots> = (\<Sum>k<n. (res k)\<^sup>2) + lam * (\<Sum>j<N. (d j)\<^sup>2) + ((\<Sum>k<n. (q k)\<^sup>2) + lam * (\<Sum>j<N. (e j)\<^sup>2))"
    unfolding sq1 sq2 cross by (simp add: algebra_simps)
  finally show ?thesis unfolding res_def q_def e_def .
qed

lemma ridge_loss_rows:
  "ridge_loss Y R lam m N n D =
     (\<Sum>p<m. (\<Sum>k<n. (Y p k - (\<Sum>j<N. D p j * R j k))\<^sup>2) + lam * (\<Sum>j<N. (D p j)\<^sup>2))"
  by (simp add: ridge_loss_def sum.distrib sum_distrib_left)

lemma ridge_loss_decompose:
  assumes inv: "inverse_of N (gram R n lam) B"
  shows "ridge_loss Y R lam m N n D' =
         ridge_loss Y R lam m N n (decoder Y R B N n) +
         (\<Sum>p<m. (\<Sum>k<n. (\<Sum>j<N. (D' p j - decoder Y R B N n p j) * R j k)\<^sup>2) +
                  lam * (\<Sum>j<N. (D' p j - decoder Y R B N n p j)\<^sup>2))"
proof -
  define D where "D = decoder Y R B N n"
  have ne: "\<forall>j<N. (\<Sum>k<n. (Y p k - (\<Sum>l<N. D p l * R l k)) * R j k) = lam * D p j" for p
    unfolding D_def using decoder_normal_equations[OF inv] by blast
  have "ridge_loss Y R lam m N n D' =
        (\<Sum>p<m. ((\<Sum>k<n. (Y p k - (\<Sum>j<N. D p j * R j k))\<^sup>2) + lam * (\<Sum>j<N. (D p j)\<^sup>2)) +
                 ((\<Sum>k<n. (\<Sum>j<N. (D' p j - D p j) * R j k)\<^sup>2) + lam * (\<Sum>j<N. (D' p j - D p j)\<^sup>2)))"
    unfolding ridge_loss_rows by (intro sum.cong refl ridge_row ne)
  also have "\<dots> = ridge_loss Y R lam m N n D +
        (\<Sum>p<m. (\<Sum>k<n. (\<Sum>j<N. (D' p j - D p j) * R j k)\<^sup>2) + lam * (\<Sum>j<N. (D' p j - D p j)\<^sup>2))"
    unfolding ridge_loss_rows by (rule sum.distrib)
  finally show ?thesis unfolding D_def .
qed

lemma excess_nonneg:
  fixes E :: matrix
  assumes "0 < lam"
  shows "0 \<le> (\<Sum>p<m. (\<Sum>k<n. (\<Sum>j<N. E p j * R j k)\<^sup>2) + lam * (\<Sum>j<N. (E p j)\<^sup>2))"
  using assms by (intro sum_nonneg add_nonneg_nonneg mult_nonneg_nonneg) simp_all

lemma excess_zero:
  fixes E :: matrix
  assumes lam: "0 < lam"
    and zero: "(\<Sum>p<m. (\<Sum>k<n. (\<Sum>j<N. E p j * R j k)\<^sup>2) + lam * (\<Sum>j<N. (E p j)\<^sup>2)) = 0"
    and p: "p < m" and j: "j < N"
  shows "E p j = 0"
proof -
  have nonneg: "0 \<le> (\<Sum>k<n. (\<Sum>j<N. E p j * R j k)\<^sup>2) + lam * (\<Sum>j<N. (E p j)\<^sup>2)" for p
    using lam by (intro add_nonneg_nonneg mult_nonneg_nonneg sum_nonneg) simp_all
  have "(\<Sum>k<n. (\<Sum>j<N. E p j * R j k)\<^sup>2) + lam * (\<Sum>j<N. (E p j)\<^sup>2) = 0"
    using zero p nonneg by (simp add: sum_nonneg_eq_0_iff)
  moreover have "0 \<le> (\<Sum>k<n. (\<Sum>j<N. E p j * R j k)\<^sup>2)" by (intro sum_nonneg) simp
  moreover have "0 \<le> lam * (\<Sum>j<N. (E p j)\<^sup>2)" using lam by (intro mult_nonneg_nonneg sum_nonneg) simp_all
  ultimately have "lam * (\<Sum>j<N. (E p j)\<^sup>2) = 0" by linarith
  then have "(\<Sum>j<N. (E p j)\<^sup>2) = 0" using lam by simp
  then have "(E p j)\<^sup>2 = 0" using j by (simp add: sum_nonneg_eq_0_iff)
  then show ?thesis by simp
qed

text \<open>
  Claim C6. For every \<open>R\<close> (\<open>N \<times> n\<close>), \<open>Y\<close> (\<open>m \<times> n\<close>) and \<open>\<lambda> > 0\<close>, the matrix
  \<open>R\<cdot>R\<^sup>t + \<lambda>\<cdot>I\<close> has an inverse, whatever the rank of \<open>R\<close> and whether or not \<open>N > n\<close>; and
  with \<open>B\<close> its inverse, the decoder \<open>D = Y\<cdot>R\<^sup>t\<cdot>B\<close> minimizes the ridge loss
  \<open>\<parallel>Y - D\<cdot>R\<parallel>\<^sup>2 + \<lambda>\<parallel>D\<parallel>\<^sup>2\<close> over all \<open>m \<times> N\<close> matrices, and is the only one that does.
\<close>

theorem ridge_decoder_minimizes:
  assumes "0 < lam"
  shows "(\<exists>B. inverse_of N (gram R n lam) B) \<and>
         (\<forall>B D'. inverse_of N (gram R n lam) B \<longrightarrow>
            ridge_loss Y R lam m N n (decoder Y R B N n) \<le> ridge_loss Y R lam m N n D' \<and>
            (ridge_loss Y R lam m N n D' = ridge_loss Y R lam m N n (decoder Y R B N n) \<longrightarrow>
               (\<forall>p<m. \<forall>j<N. D' p j = decoder Y R B N n p j)))"
proof -
  have ex: "\<exists>B. inverse_of N (gram R n lam) B"
    by (rule pos_def_invertible[OF pos_def_gram[OF assms]])
  have min: "ridge_loss Y R lam m N n (decoder Y R B N n) \<le> ridge_loss Y R lam m N n D'"
    if "inverse_of N (gram R n lam) B" for B D'
    using ridge_loss_decompose[OF that, of Y m D']
      excess_nonneg[OF assms, where E = "\<lambda>p j. D' p j - decoder Y R B N n p j" and R = R and m = m and n = n and N = N]
    by linarith
  have uniq: "D' p j = decoder Y R B N n p j"
    if inv: "inverse_of N (gram R n lam) B"
      and eq: "ridge_loss Y R lam m N n D' = ridge_loss Y R lam m N n (decoder Y R B N n)"
      and p: "p < m" and j: "j < N" for B D' p j
  proof -
    have "(\<Sum>p<m. (\<Sum>k<n. (\<Sum>j<N. (D' p j - decoder Y R B N n p j) * R j k)\<^sup>2) +
                  lam * (\<Sum>j<N. (D' p j - decoder Y R B N n p j)\<^sup>2)) = 0"
      using ridge_loss_decompose[OF inv, of Y m D'] eq by linarith
    from excess_zero[where E = "\<lambda>p j. D' p j - decoder Y R B N n p j", OF assms this p j]
    show ?thesis by simp
  qed
  show ?thesis using ex min uniq by blast
qed

lemma ridge_example_inverse:
  "inverse_of 2 (gram (\<lambda>i k. [[1], [2]] ! i ! k) 1 1) (\<lambda>i j. [[5 / 6, - 1 / 3], [- 1 / 3, 1 / 3]] ! i ! j)"
  by (auto simp: inverse_of_def gram_def lessThan_Suc numeral_2_eq_2 less_Suc_eq)

lemma ridge_example_decoder:
  "decoder (\<lambda>p k. [[3]] ! p ! k) (\<lambda>i k. [[1], [2]] ! i ! k) (\<lambda>i j. [[5 / 6, - 1 / 3], [- 1 / 3, 1 / 3]] ! i ! j) 2 1 0 0 = 1 / 2"
  "decoder (\<lambda>p k. [[3]] ! p ! k) (\<lambda>i k. [[1], [2]] ! i ! k) (\<lambda>i j. [[5 / 6, - 1 / 3], [- 1 / 3, 1 / 3]] ! i ! j) 2 1 0 1 = 1"
  by (simp_all add: decoder_def lessThan_Suc numeral_2_eq_2)

theorem ridge_decoder_minimizes_witness:
  "0 < (1::real) \<and>
   inverse_of 2 (gram (\<lambda>i k. [[1], [2]] ! i ! k) 1 1) (\<lambda>i j. [[5 / 6, - 1 / 3], [- 1 / 3, 1 / 3]] ! i ! j) \<and>
   decoder (\<lambda>p k. [[3]] ! p ! k) (\<lambda>i k. [[1], [2]] ! i ! k) (\<lambda>i j. [[5 / 6, - 1 / 3], [- 1 / 3, 1 / 3]] ! i ! j) 2 1 0 0 = 1 / 2 \<and>
   decoder (\<lambda>p k. [[3]] ! p ! k) (\<lambda>i k. [[1], [2]] ! i ! k) (\<lambda>i j. [[5 / 6, - 1 / 3], [- 1 / 3, 1 / 3]] ! i ! j) 2 1 0 1 = 1 \<and>
   ridge_loss (\<lambda>p k. [[3]] ! p ! k) (\<lambda>i k. [[1], [2]] ! i ! k) 1 1 2 1
     (decoder (\<lambda>p k. [[3]] ! p ! k) (\<lambda>i k. [[1], [2]] ! i ! k) (\<lambda>i j. [[5 / 6, - 1 / 3], [- 1 / 3, 1 / 3]] ! i ! j) 2 1) = 3 / 2 \<and>
   ridge_loss (\<lambda>p k. [[3]] ! p ! k) (\<lambda>i k. [[1], [2]] ! i ! k) 1 1 2 1 (\<lambda>p j. 1) = 2 \<and>
   ridge_loss (\<lambda>p k. [[3]] ! p ! k) (\<lambda>i k. [[1], [2]] ! i ! k) 1 1 2 1
     (decoder (\<lambda>p k. [[3]] ! p ! k) (\<lambda>i k. [[1], [2]] ! i ! k) (\<lambda>i j. [[5 / 6, - 1 / 3], [- 1 / 3, 1 / 3]] ! i ! j) 2 1)
   \<le> ridge_loss (\<lambda>p k. [[3]] ! p ! k) (\<lambda>i k. [[1], [2]] ! i ! k) 1 1 2 1 (\<lambda>p j. 1)"
proof -
  let ?R = "\<lambda>i k. [[1], [2 :: real]] ! i ! k"
  let ?Y = "\<lambda>p k. [[3 :: real]] ! p ! k"
  let ?B = "\<lambda>i j. [[5 / 6, - 1 / 3], [- 1 / 3, 1 / 3 :: real]] ! i ! j"
  have le: "ridge_loss ?Y ?R 1 1 2 1 (decoder ?Y ?R ?B 2 1) \<le> ridge_loss ?Y ?R 1 1 2 1 (\<lambda>p j. 1)"
  proof -
    have "0 < (1::real)" by simp
    from ridge_decoder_minimizes[OF this, of 2 ?R 1 ?Y 1, THEN conjunct2, rule_format,
        OF ridge_example_inverse, of "\<lambda>p j. 1"]
    show ?thesis by (rule conjunct1)
  qed
  have l1: "ridge_loss ?Y ?R 1 1 2 1 (decoder ?Y ?R ?B 2 1) = 3 / 2"
    by (simp add: ridge_loss_def decoder_def lessThan_Suc numeral_2_eq_2 power2_eq_square)
  have l2: "ridge_loss ?Y ?R 1 1 2 1 (\<lambda>p j. 1) = 2"
    by (simp add: ridge_loss_def lessThan_Suc numeral_2_eq_2 power2_eq_square)
  show ?thesis using le l1 l2 ridge_example_inverse ridge_example_decoder by simp
qed

end
